theory Spec2Isabelle
  imports Main "HOL-Library.Word"
begin

section \<open>The tracer's state\<close>

text \<open>
  The library \<^verbatim>\<open>tracelib.h\<close> keeps its whole state in namespace-level statics. The
  record below holds them under their source names, together with the parts of the
  environment the functions act on: the files on disk and the text sent to
  \<^verbatim>\<open>std::cerr\<close>.

  \<^item> \<open>dataVector\<close> is the \<^verbatim>\<open>std::vector<std::string>\<close> of rendered records and
    \<open>dataVector_capacity\<close> its \<^verbatim>\<open>capacity()\<close>.
  \<^item> \<open>traceFile\<close> is the \<^verbatim>\<open>std::ofstream\<close>: \<open>Some p\<close> while a file is open on path
    \<open>p\<close>, \<open>None\<close> while closed; \<open>traceFile_fail\<close> is set when failbit or badbit is set
    (every insertion tests both together).
  \<^item> \<open>disk\<close> maps a path to the characters written to that file so far.
  \<^item> \<open>startTime\<close> is the \<^verbatim>\<open>time_point\<close> in clock ticks (nanoseconds for
    \<^verbatim>\<open>high_resolution_clock\<close>).
  \<^item> \<^verbatim>\<open>stringBuffer\<close> is scratch space that every emit function writes before it
    reads it; only its size of 1000 bytes is kept, as \<open>STRING_BUFFER_SIZE\<close>.
\<close>

record trace_state =
  traceActive :: bool
  dataVector :: "string list"
  dataVector_capacity :: nat
  traceFile :: "string option"
  traceFile_fail :: bool
  disk :: "string \<rightharpoonup> string"
  cerr :: string
  clockInit :: bool
  startTime :: int

definition TRACE_MAX :: nat where
  "TRACE_MAX = 10000"

definition PID_VALUE :: int where
  "PID_VALUE = 1"

definition TID_VALUE :: "32 word" where
  "TID_VALUE = 1"

definition STRING_BUFFER_SIZE :: nat where
  "STRING_BUFFER_SIZE = 1000"

text \<open>The state of a process before any call: all statics zero-initialised.\<close>

definition init_state :: trace_state where
  "init_state = \<lparr> traceActive = False, dataVector = [], dataVector_capacity = 0,
     traceFile = None, traceFile_fail = False, disk = Map.empty, cerr = [],
     clockInit = False, startTime = 0 \<rparr>"

text \<open>
  Undefined behaviour of the source is a value of the model: calling \<^verbatim>\<open>back()\<close> on an
  empty vector, \<^verbatim>\<open>pop_back()\<close> on an empty string, and \<^verbatim>\<open>sprintf\<close> past the end of
  \<^verbatim>\<open>stringBuffer\<close>.
\<close>

datatype fault = BackOnEmptyVector | PopBackOnEmptyString | StringBufferOverflow

section \<open>The output stream\<close>

text \<open>
  \<^verbatim>\<open>ofstream::open\<close> calls \<^verbatim>\<open>filebuf::open\<close>, which returns a null pointer when the
  buffer already has a file open or when the system refuses the path (\<open>ok\<close> is the
  system's answer); the stream then sets failbit and nothing else changes. Otherwise the
  file is created or truncated and the stream's error state is cleared (C++11).
\<close>

definition ofstream_open :: "string \<Rightarrow> bool \<Rightarrow> trace_state \<Rightarrow> trace_state" where
  "ofstream_open filename ok s =
     (if traceFile s \<noteq> None then s\<lparr>traceFile_fail := True\<rparr>
      else if ok then
        s\<lparr>traceFile := Some filename, traceFile_fail := False,
          disk := (disk s)(filename \<mapsto> [])\<rparr>
      else s\<lparr>traceFile_fail := True\<rparr>)"

text \<open>
  \<^verbatim>\<open>traceFile << str\<close>: nothing is written on a stream whose error state is set;
  writing characters to a stream with no open file sets badbit.
\<close>

definition ofstream_write :: "string \<Rightarrow> trace_state \<Rightarrow> trace_state" where
  "ofstream_write str s =
     (if traceFile_fail s \<or> str = [] then s
      else case traceFile s of
        None \<Rightarrow> s\<lparr>traceFile_fail := True\<rparr>
      | Some p \<Rightarrow>
          s\<lparr>disk := (disk s)(p \<mapsto> (case disk s p of None \<Rightarrow> str | Some c \<Rightarrow> c @ str))\<rparr>)"

definition ofstream_close :: "trace_state \<Rightarrow> trace_state" where
  "ofstream_close s =
     (if traceFile s = None then s\<lparr>traceFile_fail := True\<rparr>
      else s\<lparr>traceFile := None\<rparr>)"

section \<open>The vector of records\<close>

text \<open>
  \<^verbatim>\<open>reserve(n)\<close> raises the capacity to exactly \<open>n\<close> when it is smaller, as the
  common standard libraries do; \<^verbatim>\<open>clear()\<close> keeps the capacity, as the source's comment
  says. \<^verbatim>\<open>push_back\<close> on a full vector doubles the capacity (from 0 to 1), as libstdc++
  does; the emit functions only push onto a full vector when the capacity is 0, which
  no state after a successful \<open>trace_start\<close> has.
\<close>

definition reserve :: "nat \<Rightarrow> trace_state \<Rightarrow> trace_state" where
  "reserve n s = s\<lparr>dataVector_capacity := max (dataVector_capacity s) n\<rparr>"

definition push_back :: "string \<Rightarrow> trace_state \<Rightarrow> trace_state" where
  "push_back str s =
     s\<lparr>dataVector := dataVector s @ [str],
       dataVector_capacity :=
         (if length (dataVector s) = dataVector_capacity s
          then max 1 (2 * dataVector_capacity s) else dataVector_capacity s)\<rparr>"

section \<open>Formatting\<close>

definition digit_char :: "nat \<Rightarrow> char" where
  "digit_char d = char_of (48 + d)"

function show_nat :: "nat \<Rightarrow> string" where
  "show_nat n = (if n < 10 then [digit_char n] else show_nat (n div 10) @ [digit_char (n mod 10)])"
  by pat_completeness auto
termination
  by (relation "measure id") auto

declare show_nat.simps [simp del]

text \<open>The conversion \<^verbatim>\<open>%i\<close>: a signed decimal.\<close>

definition show_int :: "int \<Rightarrow> string" where
  "show_int i = (if i < 0 then CHR ''-'' # show_nat (nat (- i)) else show_nat (nat i))"

text \<open>
  \<^verbatim>\<open>int(duration_cast<microseconds>(Clock::now() - startTime).count())\<close>: the tick count
  is divided by 1000 rounding towards zero, and the 64-bit count is then narrowed to a
  32-bit \<^verbatim>\<open>int\<close>, which keeps the low 32 bits.
\<close>

definition to_microseconds :: "int \<Rightarrow> int" where
  "to_microseconds d = (if 0 \<le> d then d div 1000 else - ((- d) div 1000))"

definition to_int :: "int \<Rightarrow> int" where
  "to_int x = sint (word_of_int x :: 32 word)"

definition timestamp :: "int \<Rightarrow> trace_state \<Rightarrow> int" where
  "timestamp now s = to_int (to_microseconds (now - startTime s))"

text \<open>
  One definition per format string. A \<open>tid\<close> is an \<^verbatim>\<open>unsigned int\<close> printed with
  \<^verbatim>\<open>%i\<close>, that is, as the signed value of its 32 bits; an object pointer is printed with
  \<^verbatim>\<open>PRIuPTR\<close>, as an unsigned decimal of 64 bits. The conversion \<^verbatim>\<open>%s\<close> copies its
  argument as it is. (A C string holds no zero character; a \<open>string\<close> here may, and the
  definitions treat it as any other character.)
\<close>

definition fmt_event_start :: "string \<Rightarrow> string \<Rightarrow> int \<Rightarrow> 32 word \<Rightarrow> int \<Rightarrow> string" where
  \<open>fmt_event_start name categories pid tid ts =
     ''{"name": "'' @ name @ ''", "cat": "'' @ categories @ ''", "ph": "B", "pid": '' @
     show_int pid @ '', "tid": '' @ show_int (sint tid) @ '', "ts": '' @ show_int ts @
     ''},\<newline>''\<close>

definition fmt_event_start_args :: "string \<Rightarrow> string \<Rightarrow> int \<Rightarrow> 32 word \<Rightarrow> int \<Rightarrow> string" where
  \<open>fmt_event_start_args name categories pid tid ts =
     ''{"name": "'' @ name @ ''", "cat": "'' @ categories @ ''", "ph": "B", "pid": '' @
     show_int pid @ '', "tid": '' @ show_int (sint tid) @ '', "ts": '' @ show_int ts @
     '', "args": { ''\<close>

definition fmt_event_end :: "int \<Rightarrow> 32 word \<Rightarrow> int \<Rightarrow> string" where
  \<open>fmt_event_end pid tid ts =
     ''{"ph": "E", "pid": '' @ show_int pid @ '', "tid": '' @ show_int (sint tid) @
     '', "ts": '' @ show_int ts @ ''},\<newline>''\<close>

definition fmt_event_end_args :: "int \<Rightarrow> 32 word \<Rightarrow> int \<Rightarrow> string" where
  \<open>fmt_event_end_args pid tid ts =
     ''{"ph": "E", "pid": '' @ show_int pid @ '', "tid": '' @ show_int (sint tid) @
     '', "ts": '' @ show_int ts @ '', "args": { ''\<close>

definition fmt_object :: "string \<Rightarrow> string \<Rightarrow> int \<Rightarrow> 32 word \<Rightarrow> 64 word \<Rightarrow> int \<Rightarrow> string" where
  \<open>fmt_object ph name pid tid obj_pointer ts =
     ''{"name": "'' @ name @ ''", "ph": "'' @ ph @ ''", "pid": '' @ show_int pid @
     '', "tid": '' @ show_int (sint tid) @ '', "id": '' @ show_nat (unat obj_pointer) @
     '', "ts": '' @ show_int ts @ ''},\<newline>''\<close>

definition fmt_instant_global :: "string \<Rightarrow> int \<Rightarrow> 32 word \<Rightarrow> int \<Rightarrow> string" where
  \<open>fmt_instant_global name pid tid ts =
     ''{"name": "'' @ name @ ''", "ph": "i", "pid": '' @ show_int pid @ '', "tid": '' @
     show_int (sint tid) @ '', "s": "g", "ts": '' @ show_int ts @ ''},\<newline>''\<close>

definition fmt_counter :: "string \<Rightarrow> int \<Rightarrow> 32 word \<Rightarrow> int \<Rightarrow> string" where
  \<open>fmt_counter name pid tid ts =
     ''{"name": "'' @ name @ ''", "ph": "C", "pid": '' @ show_int pid @ '', "tid": '' @
     show_int (sint tid) @ '', "ts": '' @ show_int ts @ '', "args": { ''\<close>

text \<open>
  The loop over the two argument lists, entered only when they have the same length:
  each pair is appended as \<^verbatim>\<open>"%s": %s\<close>, followed by a comma and a space when it is
  not the last.
\<close>

fun fmt_args :: "string list \<Rightarrow> string list \<Rightarrow> string" where
  \<open>fmt_args (k # ks) (v # vs) =
     ''"'' @ k @ ''": '' @ v @ (if ks \<noteq> [] then '', '' else []) @ fmt_args ks vs\<close>
| \<open>fmt_args _ _ = []\<close>

definition fmt_args_close :: string where
  \<open>fmt_args_close = ''} },\<newline>''\<close>

section \<open>The library functions\<close>

definition trace_start :: "string \<Rightarrow> bool \<Rightarrow> int \<Rightarrow> trace_state \<Rightarrow> trace_state \<times> bool" where
  \<open>trace_start filename ok now s =
     (let s1 = ofstream_open filename ok s in
      if traceFile s1 \<noteq> None then
        let s2 = reserve TRACE_MAX s1;
            s3 = ofstream_write ''[\<newline>'' s2;
            s4 = (if \<not> clockInit s3 then s3\<lparr>startTime := now, clockInit := True\<rparr> else s3)
        in (s4\<lparr>traceActive := True\<rparr>, True)
      else
        (s1\<lparr>cerr := cerr s1 @ ''Error: Unable to open file "'' @ filename @
            ''" for trace output.\<newline>''\<rparr>, False))\<close>

definition trace_flush :: "trace_state \<Rightarrow> trace_state" where
  "trace_flush s = (fold ofstream_write (dataVector s) s)\<lparr>dataVector := []\<rparr>"

definition trace_end :: "trace_state \<Rightarrow> fault + trace_state" where
  \<open>trace_end s =
     (if dataVector s = [] then Inl BackOnEmptyVector
      else if last (dataVector s) = [] then Inl PopBackOnEmptyString
      else if butlast (last (dataVector s)) = [] then Inl PopBackOnEmptyString
      else
        let s1 = s\<lparr>dataVector :=
                   butlast (dataVector s) @ [butlast (butlast (last (dataVector s)))]\<rparr>;
            s2 = trace_flush s1;
            s3 = ofstream_write ''\<newline>]'' s2;
            s4 = ofstream_close s3
        in Inr (s4\<lparr>traceActive := False\<rparr>))\<close>

text \<open>The test \<^verbatim>\<open>if (dataVector.size() == dataVector.capacity()) trace_flush();\<close>\<close>

definition flush_if_full :: "trace_state \<Rightarrow> trace_state" where
  "flush_if_full s =
     (if length (dataVector s) = dataVector_capacity s then trace_flush s else s)"

text \<open>
  \<^verbatim>\<open>sprintf(stringBuffer, ...); dataVector.push_back(stringBuffer);\<close> The formatted
  text and its terminating zero must fit the buffer.
\<close>

definition sprintf_push :: "string \<Rightarrow> trace_state \<Rightarrow> fault + trace_state" where
  "sprintf_push str s =
     (if STRING_BUFFER_SIZE \<le> length str then Inl StringBufferOverflow
      else Inr (push_back str s))"

definition trace_event_start ::
    "string \<Rightarrow> string \<Rightarrow> 32 word \<Rightarrow> int \<Rightarrow> trace_state \<Rightarrow> fault + trace_state" where
  "trace_event_start name categories tid now s =
     (if \<not> traceActive s then Inr s
      else
        let s1 = flush_if_full s in
        sprintf_push (fmt_event_start name categories PID_VALUE tid (timestamp now s1)) s1)"

definition trace_event_start_args ::
    "string \<Rightarrow> string \<Rightarrow> string list \<Rightarrow> string list \<Rightarrow> 32 word \<Rightarrow> int \<Rightarrow> trace_state
      \<Rightarrow> fault + trace_state" where
  \<open>trace_event_start_args name categories argumentNames argumentValues tid now s =
     (if \<not> traceActive s then Inr s
      else
        let s1 = flush_if_full s in
        if length argumentNames \<noteq> length argumentValues then
          trace_event_start name categories TID_VALUE now
            (s1\<lparr>cerr := cerr s1 @ ''Error: Argument lists for '' @ name @
               '' in trace_event_start are not the same size; ignoring them.\<newline>''\<rparr>)
        else
          sprintf_push
            (fmt_event_start_args name categories PID_VALUE tid (timestamp now s1) @
             fmt_args argumentNames argumentValues @ fmt_args_close) s1)\<close>

definition trace_event_end :: "32 word \<Rightarrow> int \<Rightarrow> trace_state \<Rightarrow> fault + trace_state" where
  "trace_event_end tid now s =
     (if \<not> traceActive s then Inr s
      else
        let s1 = flush_if_full s in
        sprintf_push (fmt_event_end PID_VALUE tid (timestamp now s1)) s1)"

definition trace_event_end_args ::
    "string list \<Rightarrow> string list \<Rightarrow> 32 word \<Rightarrow> int \<Rightarrow> trace_state \<Rightarrow> fault + trace_state" where
  \<open>trace_event_end_args argumentNames argumentValues tid now s =
     (if \<not> traceActive s then Inr s
      else
        let s1 = flush_if_full s in
        if length argumentNames \<noteq> length argumentValues then
          trace_event_end TID_VALUE now
            (s1\<lparr>cerr := cerr s1 @
               ''Error: Argument lists in trace_event_end are not the same size; ignoring them.\<newline>''\<rparr>)
        else
          sprintf_push
            (fmt_event_end_args PID_VALUE tid (timestamp now s1) @
             fmt_args argumentNames argumentValues @ fmt_args_close) s1)\<close>

definition trace_object_new ::
    "string \<Rightarrow> 64 word \<Rightarrow> 32 word \<Rightarrow> int \<Rightarrow> trace_state \<Rightarrow> fault + trace_state" where
  "trace_object_new name obj_pointer tid now s =
     (if \<not> traceActive s then Inr s
      else
        let s1 = flush_if_full s in
        sprintf_push (fmt_object ''N'' name PID_VALUE tid obj_pointer (timestamp now s1)) s1)"

definition trace_object_gone ::
    "string \<Rightarrow> 64 word \<Rightarrow> 32 word \<Rightarrow> int \<Rightarrow> trace_state \<Rightarrow> fault + trace_state" where
  "trace_object_gone name obj_pointer tid now s =
     (if \<not> traceActive s then Inr s
      else
        let s1 = flush_if_full s in
        sprintf_push (fmt_object ''D'' name PID_VALUE tid obj_pointer (timestamp now s1)) s1)"

definition trace_instant_global ::
    "string \<Rightarrow> 32 word \<Rightarrow> int \<Rightarrow> trace_state \<Rightarrow> fault + trace_state" where
  "trace_instant_global name tid now s =
     (if \<not> traceActive s then Inr s
      else
        let s1 = flush_if_full s in
        sprintf_push (fmt_instant_global name PID_VALUE tid (timestamp now s1)) s1)"

definition trace_counter ::
    "string \<Rightarrow> string list \<Rightarrow> string list \<Rightarrow> 32 word \<Rightarrow> int \<Rightarrow> trace_state
      \<Rightarrow> fault + trace_state" where
  \<open>trace_counter name key val tid now s =
     (if \<not> traceActive s then Inr s
      else
        let s1 = flush_if_full s in
        if length key \<noteq> length val then
          Inr (s1\<lparr>cerr := cerr s1 @ ''Error: Argument lists for '' @ name @
                 '' in trace_counter are not the same size; ignoring this event.\<newline>''\<rparr>)
        else
          sprintf_push
            (fmt_counter name PID_VALUE tid (timestamp now s1) @
             fmt_args key val @ fmt_args_close) s1)\<close>

section \<open>Calls and sessions\<close>

text \<open>
  The eight emit functions of the library as one datatype of events, so that a program
  using the library is a list of calls. Each emit call carries the value that
  \<^verbatim>\<open>Clock::now()\<close> returns during it; \<open>Start\<close> carries the path, the system's answer to
  opening it, and the clock reading.
\<close>

datatype event =
    EventStart string string "32 word"
  | EventStartArgs string string "string list" "string list" "32 word"
  | EventEnd "32 word"
  | EventEndArgs "string list" "string list" "32 word"
  | ObjectNew string "64 word" "32 word"
  | ObjectGone string "64 word" "32 word"
  | InstantGlobal string "32 word"
  | Counter string "string list" "string list" "32 word"

fun emit :: "event \<Rightarrow> int \<Rightarrow> trace_state \<Rightarrow> fault + trace_state" where
  "emit (EventStart name categories tid) now s = trace_event_start name categories tid now s"
| "emit (EventStartArgs name categories ns vs tid) now s =
     trace_event_start_args name categories ns vs tid now s"
| "emit (EventEnd tid) now s = trace_event_end tid now s"
| "emit (EventEndArgs ns vs tid) now s = trace_event_end_args ns vs tid now s"
| "emit (ObjectNew name obj_pointer tid) now s = trace_object_new name obj_pointer tid now s"
| "emit (ObjectGone name obj_pointer tid) now s = trace_object_gone name obj_pointer tid now s"
| "emit (InstantGlobal name tid) now s = trace_instant_global name tid now s"
| "emit (Counter name key val tid) now s = trace_counter name key val tid now s"

datatype call = Start string bool int | Emit event int | Flush | End

fun call_step :: "call \<Rightarrow> trace_state \<Rightarrow> fault + trace_state" where
  "call_step (Start filename ok now) s = Inr (fst (trace_start filename ok now s))"
| "call_step (Emit ev now) s = emit ev now s"
| "call_step Flush s = Inr (trace_flush s)"
| "call_step End s = trace_end s"

fun run :: "call list \<Rightarrow> trace_state \<Rightarrow> fault + trace_state" where
  "run [] s = Inr s"
| "run (c # cs) s = (case call_step c s of Inl f \<Rightarrow> Inl f | Inr s' \<Rightarrow> run cs s')"

fun is_Start :: "call \<Rightarrow> bool" where
  "is_Start (Start filename ok now) = True"
| "is_Start _ = False"

text \<open>
  A session: a successful \<open>trace_start\<close> in a fresh process, the calls, \<open>trace_end\<close>.
  \<open>file_of\<close> reads a file of the resulting disk.
\<close>

definition session :: "string \<Rightarrow> int \<Rightarrow> call list \<Rightarrow> fault + trace_state" where
  "session filename now cs = run (Start filename True now # cs @ [End]) init_state"

definition file_of :: "string \<Rightarrow> fault + trace_state \<Rightarrow> fault + string option" where
  "file_of filename r = (case r of Inl f \<Rightarrow> Inl f | Inr s \<Rightarrow> Inr (disk s filename))"

text \<open>
  What one emit call contributes, read off the eight functions: \<open>record_of\<close> is the
  record it appends (none for a counter whose lists differ in length) and \<open>report_of\<close> the
  text it sends to \<^verbatim>\<open>std::cerr\<close>. Lemma \<open>emit_eq\<close> below proves that \<open>emit\<close> is the
  capacity test followed by exactly these two effects.
\<close>

fun record_of :: "event \<Rightarrow> int \<Rightarrow> string option" where
  "record_of (EventStart name categories tid) ts =
     Some (fmt_event_start name categories PID_VALUE tid ts)"
| "record_of (EventStartArgs name categories ns vs tid) ts =
     (if length ns \<noteq> length vs then Some (fmt_event_start name categories PID_VALUE TID_VALUE ts)
      else Some (fmt_event_start_args name categories PID_VALUE tid ts @ fmt_args ns vs @
                 fmt_args_close))"
| "record_of (EventEnd tid) ts = Some (fmt_event_end PID_VALUE tid ts)"
| "record_of (EventEndArgs ns vs tid) ts =
     (if length ns \<noteq> length vs then Some (fmt_event_end PID_VALUE TID_VALUE ts)
      else Some (fmt_event_end_args PID_VALUE tid ts @ fmt_args ns vs @ fmt_args_close))"
| "record_of (ObjectNew name obj_pointer tid) ts =
     Some (fmt_object ''N'' name PID_VALUE tid obj_pointer ts)"
| "record_of (ObjectGone name obj_pointer tid) ts =
     Some (fmt_object ''D'' name PID_VALUE tid obj_pointer ts)"
| "record_of (InstantGlobal name tid) ts = Some (fmt_instant_global name PID_VALUE tid ts)"
| "record_of (Counter name key val tid) ts =
     (if length key \<noteq> length val then None
      else Some (fmt_counter name PID_VALUE tid ts @ fmt_args key val @ fmt_args_close))"

fun report_of :: "event \<Rightarrow> string" where
  \<open>report_of (EventStartArgs name categories ns vs tid) =
     (if length ns \<noteq> length vs then
        ''Error: Argument lists for '' @ name @
        '' in trace_event_start are not the same size; ignoring them.\<newline>''
      else [])\<close>
| \<open>report_of (EventEndArgs ns vs tid) =
     (if length ns \<noteq> length vs then
        ''Error: Argument lists in trace_event_end are not the same size; ignoring them.\<newline>''
      else [])\<close>
| \<open>report_of (Counter name key val tid) =
     (if length key \<noteq> length val then
        ''Error: Argument lists for '' @ name @
        '' in trace_counter are not the same size; ignoring this event.\<newline>''
      else [])\<close>
| \<open>report_of _ = []\<close>


text \<open>
  Notions used to state what a session has produced so far. \<open>sink_ready s p\<close>: the
  session is active and the stream is open on \<open>p\<close> with no error. \<open>sink_text\<close>: what
  has been written to the file. \<open>pending\<close>: that text followed by the buffered records.
  \<open>appended t0 cs\<close>: the records that the emit calls among \<open>cs\<close> render, in order, for
  the clock origin \<open>t0\<close>. \<open>terminated r\<close>: the text \<open>r\<close> ends with the separator.
\<close>

definition sink_ready :: "trace_state \<Rightarrow> string \<Rightarrow> bool" where
  "sink_ready s p = (traceActive s \<and> traceFile s = Some p \<and> \<not> traceFile_fail s \<and> disk s p \<noteq> None)"

definition sink_text :: "trace_state \<Rightarrow> string \<Rightarrow> string" where
  "sink_text s p = (case disk s p of None \<Rightarrow> [] | Some c \<Rightarrow> c)"

definition pending :: "trace_state \<Rightarrow> string \<Rightarrow> string" where
  "pending s p = sink_text s p @ concat (dataVector s)"

fun is_Emit :: "call \<Rightarrow> bool" where
  "is_Emit (Emit ev now) = True"
| "is_Emit _ = False"

fun appended :: "int \<Rightarrow> call list \<Rightarrow> string list" where
  "appended t0 [] = []"
| "appended t0 (Emit ev now # cs) =
     (case record_of ev (to_int (to_microseconds (now - t0))) of None \<Rightarrow> [] | Some r \<Rightarrow> [r]) @
     appended t0 cs"
| "appended t0 (c # cs) = appended t0 cs"

definition terminated :: "string \<Rightarrow> bool" where
  \<open>terminated r = (\<exists>obj. r = obj @ '',\<newline>'')\<close>

text \<open>
  \<open>rendered\<close>: the records of a list of events, each paired with the timestamp it is
  stamped with. \<open>renders c\<close>: the call \<open>c\<close> is an emit call that appends a record, that
  is, any emit call but a \<open>trace_counter\<close> whose lists differ in length.
\<close>

fun rendered :: "(event \<times> int) list \<Rightarrow> string list" where
  "rendered [] = []"
| "rendered ((ev, ts) # es) =
     (case record_of ev ts of None \<Rightarrow> [] | Some r \<Rightarrow> [r]) @ rendered es"


text \<open>
  The calls whose behaviour the C++ standard defines. An emit call on an active session
  formats its record into \<^verbatim>\<open>stringBuffer\<close>, 1000 bytes, so the record with its
  terminating zero has to fit. \<open>trace_end\<close> calls \<^verbatim>\<open>back()\<close> on the vector and
  \<^verbatim>\<open>pop_back()\<close> twice on its last string. \<open>defined_run cs s\<close>: each call of \<open>cs\<close> is
  such a call in the state in which it is made. Lemmas \<open>call_step_defined\<close> and
  \<open>run_defined\<close> prove that these are the calls on which the model returns a state.
\<close>

fun defined_call :: "call \<Rightarrow> trace_state \<Rightarrow> bool" where
  "defined_call (Start filename ok now) s = True"
| "defined_call (Emit ev now) s =
     (\<not> traceActive s \<or>
      (case record_of ev (timestamp now s) of
         None \<Rightarrow> True | Some r \<Rightarrow> length r < STRING_BUFFER_SIZE))"
| "defined_call Flush s = True"
| "defined_call End s = (dataVector s \<noteq> [] \<and> 2 \<le> length (last (dataVector s)))"

fun defined_run :: "call list \<Rightarrow> trace_state \<Rightarrow> bool" where
  "defined_run [] s = True"
| "defined_run (c # cs) s =
     (defined_call c s \<and>
      (case call_step c s of Inl f \<Rightarrow> True | Inr s1 \<Rightarrow> defined_run cs s1))"



section \<open>JSON texts\<close>

text \<open>
  What "parses as a JSON array of objects" means: the grammar of JSON (RFC 8259) on
  characters. \<open>json_ws\<close> is insignificant white space, \<open>json_chars\<close> the characters
  between the quotes of a string (no bare quote, backslash or control character; the
  escapes), \<open>json_number\<close> a number, \<open>json_value\<close> any value, \<open>json_members\<close> and
  \<open>json_elements\<close> the comma-separated contents of a non-empty object or array. A text
  is a \<open>json_array_of_objects\<close> when it is an array, inside optional white space, that
  is empty or whose elements are all objects; a separator is only ever between two
  elements.
\<close>

definition json_ws :: "string \<Rightarrow> bool" where
  "json_ws w = (set w \<subseteq> {CHR '' '', CHR 0x09, CHR 0x0A, CHR 0x0D})"

definition hex_digit :: "char \<Rightarrow> bool" where
  "hex_digit c = (c \<in> set ''0123456789abcdefABCDEF'')"

fun json_chars :: "string \<Rightarrow> bool" where
  "json_chars [] = True"
| "json_chars (c # cs) =
     (if c = CHR 0x5C then
        (case cs of
           [] \<Rightarrow> False
         | e # r \<Rightarrow>
             if e = CHR ''u'' then
               (case r of
                  h1 # h2 # h3 # h4 # r' \<Rightarrow>
                    hex_digit h1 \<and> hex_digit h2 \<and> hex_digit h3 \<and> hex_digit h4 \<and> json_chars r'
                | _ \<Rightarrow> False)
             else e \<in> {CHR 0x22, CHR 0x5C, CHR ''/'', CHR ''b'', CHR ''f'', CHR ''n'', CHR ''r'',
                       CHR ''t''} \<and> json_chars r)
      else c \<noteq> CHR 0x22 \<and> 32 \<le> (of_char c :: nat) \<and> json_chars cs)"

definition json_digit :: "char \<Rightarrow> bool" where
  "json_digit c = (c \<in> set ''0123456789'')"

definition json_digits :: "string \<Rightarrow> bool" where
  "json_digits ds = (ds \<noteq> [] \<and> list_all json_digit ds)"

definition json_int :: "string \<Rightarrow> bool" where
  "json_int i = (i = ''0'' \<or> (json_digits i \<and> hd i \<noteq> CHR ''0''))"

definition json_frac :: "string \<Rightarrow> bool" where
  "json_frac f = (f = [] \<or> (\<exists>ds. f = CHR ''.'' # ds \<and> json_digits ds))"

definition json_exp :: "string \<Rightarrow> bool" where
  "json_exp x =
     (x = [] \<or>
      (\<exists>e sg ds. x = e # sg @ ds \<and> (e = CHR ''e'' \<or> e = CHR ''E'') \<and>
         (sg = [] \<or> sg = ''+'' \<or> sg = ''-'') \<and> json_digits ds))"

definition json_number :: "string \<Rightarrow> bool" where
  "json_number n =
     (\<exists>sg i f x. n = sg @ i @ f @ x \<and> (sg = [] \<or> sg = ''-'') \<and> json_int i \<and> json_frac f \<and>
        json_exp x)"

inductive json_value :: "string \<Rightarrow> bool"
  and json_members :: "string \<Rightarrow> bool"
  and json_elements :: "string \<Rightarrow> bool" where
  Null: "json_value ''null''"
| True: "json_value ''true''"
| False: "json_value ''false''"
| Number: "json_number n \<Longrightarrow> json_value n"
| String: "json_chars s \<Longrightarrow> json_value (CHR 0x22 # s @ [CHR 0x22])"
| EmptyArray: "json_ws w \<Longrightarrow> json_value (''['' @ w @ '']'')"
| Array: "json_elements es \<Longrightarrow> json_value (''['' @ es @ '']'')"
| EmptyObject: "json_ws w \<Longrightarrow> json_value (''{'' @ w @ ''}'')"
| Object: "json_members ms \<Longrightarrow> json_value (''{'' @ ms @ ''}'')"
| Member: "json_ws w1 \<Longrightarrow> json_chars k \<Longrightarrow> json_ws w2 \<Longrightarrow> json_ws w3 \<Longrightarrow> json_value v \<Longrightarrow>
     json_ws w4 \<Longrightarrow>
     json_members (w1 @ CHR 0x22 # k @ [CHR 0x22] @ w2 @ '':'' @ w3 @ v @ w4)"
| Members: "json_members m \<Longrightarrow> json_members ms \<Longrightarrow> json_members (m @ '','' @ ms)"
| Element: "json_ws w1 \<Longrightarrow> json_value v \<Longrightarrow> json_ws w2 \<Longrightarrow> json_elements (w1 @ v @ w2)"
| Elements: "json_elements e \<Longrightarrow> json_elements es \<Longrightarrow> json_elements (e @ '','' @ es)"

definition json_object :: "string \<Rightarrow> bool" where
  "json_object v = (\<exists>body. v = ''{'' @ body @ ''}'' \<and> (json_ws body \<or> json_members body))"

inductive json_objects :: "string \<Rightarrow> bool" where
  One: "json_ws w1 \<Longrightarrow> json_object v \<Longrightarrow> json_ws w2 \<Longrightarrow> json_objects (w1 @ v @ w2)"
| More: "json_objects a \<Longrightarrow> json_objects b \<Longrightarrow> json_objects (a @ '','' @ b)"

definition json_array_of_objects :: "string \<Rightarrow> bool" where
  "json_array_of_objects t =
     (\<exists>w1 body w2. t = w1 @ ''['' @ body @ '']'' @ w2 \<and> json_ws w1 \<and> json_ws w2 \<and>
        (json_ws body \<or> json_objects body))"

definition json_text :: "string \<Rightarrow> bool" where
  "json_text t = (\<exists>w1 v w2. t = w1 @ v @ w2 \<and> json_ws w1 \<and> json_value v \<and> json_ws w2)"

text \<open>
  \<open>member\<close> and \<open>members\<close> are the way every format string of the library writes the
  fields of an object: \<^verbatim>\<open>"key": value\<close>, joined by a comma and a space. \<open>json_safe\<close> says
  of an event that the strings the caller passes, which are copied unescaped, are string
  contents, and that its argument values are JSON values, when the argument lists are
  used. \<open>produces_json\<close> says of the result of a session that it ended without fault and
  left a file that is a JSON array of objects.
\<close>

definition member :: "string \<Rightarrow> string \<Rightarrow> string" where
  \<open>member k v = ''"'' @ k @ ''": '' @ v\<close>

fun members :: "(string \<times> string) list \<Rightarrow> string" where
  "members [] = []"
| "members [(k, v)] = member k v"
| "members ((k, v) # kvs) = member k v @ '', '' @ members kvs"

definition quoted :: "string \<Rightarrow> string" where
  \<open>quoted s = ''"'' @ s @ ''"''\<close>

fun json_safe :: "event \<Rightarrow> bool" where
  "json_safe (EventStart name categories tid) = (json_chars name \<and> json_chars categories)"
| "json_safe (EventStartArgs name categories ns vs tid) =
     (json_chars name \<and> json_chars categories \<and>
      (length ns \<noteq> length vs \<or> list_all json_chars ns \<and> list_all json_value vs))"
| "json_safe (EventEnd tid) = True"
| "json_safe (EventEndArgs ns vs tid) =
     (length ns \<noteq> length vs \<or> list_all json_chars ns \<and> list_all json_value vs)"
| "json_safe (ObjectNew name obj_pointer tid) = json_chars name"
| "json_safe (ObjectGone name obj_pointer tid) = json_chars name"
| "json_safe (InstantGlobal name tid) = json_chars name"
| "json_safe (Counter name key val tid) =
     (length key \<noteq> length val \<or>
      json_chars name \<and> list_all json_chars key \<and> list_all json_value val)"

fun call_safe :: "call \<Rightarrow> bool" where
  "call_safe (Emit ev now) = json_safe ev"
| "call_safe _ = True"

definition produces_json :: "fault + string option \<Rightarrow> bool" where
  "produces_json r =
     (case r of Inl f \<Rightarrow> False | Inr None \<Rightarrow> False | Inr (Some out) \<Rightarrow> json_array_of_objects out)"

text \<open>
  \<open>json_array_of n t\<close>: the text \<open>t\<close> is a JSON array of exactly \<open>n\<close> objects, \<open>n\<close> at
  least one: inside the brackets, \<open>n\<close> objects with one comma between neighbours, none
  before the first and none after the last.
\<close>

inductive json_object_list :: "nat \<Rightarrow> string \<Rightarrow> bool" where
  Single: "json_ws w1 \<Longrightarrow> json_object v \<Longrightarrow> json_ws w2 \<Longrightarrow> json_object_list 1 (w1 @ v @ w2)"
| Append: "json_object_list m a \<Longrightarrow> json_object_list n b \<Longrightarrow>
     json_object_list (m + n) (a @ '','' @ b)"

definition json_array_of :: "nat \<Rightarrow> string \<Rightarrow> bool" where
  "json_array_of n t =
     (\<exists>w1 body w2. t = w1 @ ''['' @ body @ '']'' @ w2 \<and> json_ws w1 \<and> json_ws w2 \<and>
        json_object_list n body)"

text \<open>
  A scanner that every JSON text passes: it tracks whether it is inside a string and
  accepts, outside strings, only the characters that the grammar can produce there.
\<close>

datatype scan_mode = Outside | Inside | Escaped

definition structural :: "char \<Rightarrow> bool" where
  "structural c = (json_ws [c] \<or> c \<in> set ''[]{}:,0123456789+-.eEtrufalsn'')"

fun scan_step :: "scan_mode \<Rightarrow> char \<Rightarrow> scan_mode option" where
  "scan_step Outside c = (if c = CHR 0x22 then Some Inside else if structural c then Some Outside else None)"
| "scan_step Inside c =
     (if c = CHR 0x22 then Some Outside else if c = CHR 0x5C then Some Escaped
      else if (of_char c :: nat) < 32 then None else Some Inside)"
| "scan_step Escaped c = (if (of_char c :: nat) < 32 then None else Some Inside)"

fun scan :: "scan_mode \<Rightarrow> string \<Rightarrow> scan_mode option" where
  "scan m [] = Some m"
| "scan m (c # cs) = (case scan_step m c of None \<Rightarrow> None | Some m' \<Rightarrow> scan m' cs)"


section \<open>Evaluating the model\<close>

lemma digit_char_simps:
  "digit_char 0 = CHR ''0''" "digit_char (Suc 0) = CHR ''1''" "digit_char 1 = CHR ''1''"
  "digit_char 2 = CHR ''2''" "digit_char 3 = CHR ''3''" "digit_char 4 = CHR ''4''"
  "digit_char 5 = CHR ''5''" "digit_char 6 = CHR ''6''" "digit_char 7 = CHR ''7''"
  "digit_char 8 = CHR ''8''" "digit_char 9 = CHR ''9''"
  by (simp_all add: digit_char_def char_of_def bit_0)

lemma show_nat_digit: "n < 10 \<Longrightarrow> show_nat n = [digit_char n]"
  by (simp add: show_nat.simps)

lemma to_int_small: "0 \<le> x \<Longrightarrow> x < 2147483648 \<Longrightarrow> to_int x = x"
  unfolding to_int_def
  by (simp add: sint_sbintrunc' signed_take_bit_int_eq_self)

lemmas eval_defs =
  trace_end_def trace_start_def init_state_def ofstream_open_def reserve_def
  ofstream_write_def ofstream_close_def Let_def trace_instant_global_def trace_event_end_def
  flush_if_full_def TRACE_MAX_def
  sprintf_push_def STRING_BUFFER_SIZE_def fmt_instant_global_def fmt_event_end_def push_back_def
  trace_flush_def PID_VALUE_def TID_VALUE_def show_int_def show_nat_digit digit_char_simps
  timestamp_def to_microseconds_def to_int_def

section \<open>Flushing\<close>

lemma fold_write_closed_disk:
  "traceFile s = None \<Longrightarrow>
     disk (fold ofstream_write xs s) = disk s \<and> traceFile (fold ofstream_write xs s) = None"
  by (induction xs arbitrary: s) (simp_all add: ofstream_write_def)

lemma fold_write_frame:
  "traceActive (fold ofstream_write xs s) = traceActive s \<and>
   dataVector_capacity (fold ofstream_write xs s) = dataVector_capacity s \<and>
   cerr (fold ofstream_write xs s) = cerr s \<and>
   clockInit (fold ofstream_write xs s) = clockInit s \<and>
   startTime (fold ofstream_write xs s) = startTime s \<and>
   traceFile (fold ofstream_write xs s) = traceFile s"
  by (induction xs arbitrary: s) (simp_all add: ofstream_write_def split: option.splits)



lemma write_cerr:
  "ofstream_write x (t\<lparr>cerr := e\<rparr>) = (ofstream_write x t)\<lparr>cerr := e\<rparr>"
  by (simp add: ofstream_write_def split: option.splits)

lemma fold_write_cerr:
  "fold ofstream_write xs (t\<lparr>cerr := e\<rparr>) = (fold ofstream_write xs t)\<lparr>cerr := e\<rparr>"
  by (induction xs arbitrary: t) (simp_all add: write_cerr)

lemma trace_flush_frame:
  "traceActive (trace_flush s) = traceActive s \<and>
   dataVector_capacity (trace_flush s) = dataVector_capacity s \<and>
   cerr (trace_flush s) = cerr s \<and>
   clockInit (trace_flush s) = clockInit s \<and>
   startTime (trace_flush s) = startTime s \<and>
   traceFile (trace_flush s) = traceFile s \<and>
   dataVector (trace_flush s) = []"
  using fold_write_frame [of "dataVector s" s] by (simp add: trace_flush_def)

lemma flush_if_full_frame:
  "traceActive (flush_if_full s) = traceActive s \<and>
   dataVector_capacity (flush_if_full s) = dataVector_capacity s \<and>
   cerr (flush_if_full s) = cerr s \<and>
   clockInit (flush_if_full s) = clockInit s \<and>
   startTime (flush_if_full s) = startTime s \<and>
   traceFile (flush_if_full s) = traceFile s"
  by (simp add: flush_if_full_def trace_flush_frame)

lemma flush_if_full_cerr:
  "flush_if_full (s\<lparr>cerr := e\<rparr>) = (flush_if_full s)\<lparr>cerr := e\<rparr>"
  by (simp add: flush_if_full_def trace_flush_def fold_write_cerr)

lemma flush_if_full_idem: "flush_if_full (flush_if_full s) = flush_if_full s"
  by (simp add: flush_if_full_def trace_flush_frame) (simp add: trace_flush_def)

lemma timestamp_flush_if_full: "timestamp now (flush_if_full s) = timestamp now s"
  by (simp add: timestamp_def flush_if_full_frame)

lemma timestamp_cerr: "timestamp now (s\<lparr>cerr := e\<rparr>) = timestamp now s"
  by (simp add: timestamp_def)

lemma flush_if_full_cerr_same: "(flush_if_full s)\<lparr>cerr := cerr s\<rparr> = flush_if_full s"
proof -
  have "(flush_if_full s)\<lparr>cerr := cerr (flush_if_full s)\<rparr> = flush_if_full s" by simp
  then show ?thesis by (simp add: flush_if_full_frame)
qed

lemma emit_eq:
  "emit ev now s =
     (if \<not> traceActive s then Inr s
      else case record_of ev (timestamp now s) of
        None \<Rightarrow> Inr ((flush_if_full s)\<lparr>cerr := cerr s @ report_of ev\<rparr>)
      | Some r \<Rightarrow> sprintf_push r ((flush_if_full s)\<lparr>cerr := cerr s @ report_of ev\<rparr>))"
proof (cases ev)
  case (EventStartArgs name categories ns vs tid)
  then show ?thesis
    by (simp add: trace_event_start_args_def trace_event_start_def Let_def flush_if_full_frame
        flush_if_full_cerr flush_if_full_idem timestamp_flush_if_full timestamp_cerr
        flush_if_full_cerr_same)
next
  case (EventEndArgs ns vs tid)
  then show ?thesis
    by (simp add: trace_event_end_args_def trace_event_end_def Let_def flush_if_full_frame
        flush_if_full_cerr flush_if_full_idem timestamp_flush_if_full timestamp_cerr
        flush_if_full_cerr_same)
next
  case (Counter name key val tid)
  then show ?thesis
    by (simp add: trace_counter_def Let_def flush_if_full_frame timestamp_flush_if_full
        flush_if_full_cerr_same)
qed (simp_all add: trace_event_start_def trace_event_end_def trace_object_new_def
      trace_object_gone_def trace_instant_global_def Let_def flush_if_full_frame
      timestamp_flush_if_full flush_if_full_cerr_same)

text \<open>
  Claim C9. Calling \<open>trace_flush\<close> when the buffer is empty returns the state as it
  was: nothing is written to the sink, the stream's error state, the error output and
  the buffer are unchanged. For any state, flushing twice in a row gives the same state
  as flushing once.
\<close>

theorem flush_empty_idempotent:
  "(dataVector s = [] \<longrightarrow> trace_flush s = s) \<and> trace_flush (trace_flush s) = trace_flush s"
  by (simp add: trace_flush_def)

theorem flush_empty_idempotent_witness:
  "dataVector init_state = [] \<and> trace_flush init_state = init_state \<and>
   trace_flush (trace_flush init_state) = trace_flush init_state"
  using flush_empty_idempotent [of init_state] by (simp add: init_state_def)

section \<open>Ending a session\<close>

lemma trace_end_empty: "dataVector s = [] \<Longrightarrow> trace_end s = Inl BackOnEmptyVector"
  by (simp add: trace_end_def)

text \<open>
  Claim C2, evaluated where it fails. \<open>trace_end\<close> begins with
  \<^verbatim>\<open>dataVector.back().pop_back()\<close> whatever the size of the vector. When the buffer is
  empty at that moment, after a start with no event or after an explicit flush, this is
  \<^verbatim>\<open>back()\<close> on an empty vector: the separator is not removed from the sink, and no
  closing bracket is written.
\<close>

theorem end_without_buffered_record:
  "trace_end (fst (trace_start ''trace.json'' True 0 init_state)) = Inl BackOnEmptyVector \<and>
   run [Start ''trace.json'' True 0, Emit (InstantGlobal ''e'' 1) 5, Flush, End] init_state =
     Inl BackOnEmptyVector"
  by (simp add: trace_end_def trace_start_def init_state_def ofstream_open_def reserve_def
      ofstream_write_def Let_def trace_instant_global_def flush_if_full_def TRACE_MAX_def
      sprintf_push_def STRING_BUFFER_SIZE_def fmt_instant_global_def push_back_def
      trace_flush_def PID_VALUE_def show_int_def show_nat_digit timestamp_def
      to_microseconds_def to_int_def)

section \<open>Timestamps\<close>

lemma timestamp_in_range:
  assumes "startTime s \<le> t" "t - startTime s < 2147483648000"
  shows "timestamp t s = (t - startTime s) div 1000"
proof -
  have "0 \<le> (t - startTime s) div 1000" using assms by simp
  moreover have "(t - startTime s) div 1000 < 2147483648" using assms by simp
  ultimately show ?thesis
    using assms by (simp add: timestamp_def to_microseconds_def to_int_small)
qed

section \<open>The clock origin\<close>

lemma sprintf_push_frame:
  "sprintf_push r t = Inr s' \<Longrightarrow>
     clockInit s' = clockInit t \<and> startTime s' = startTime t \<and> traceActive s' = traceActive t \<and>
     traceFile s' = traceFile t \<and> traceFile_fail s' = traceFile_fail t \<and> disk s' = disk t \<and>
     cerr s' = cerr t \<and> dataVector s' = dataVector t @ [r]"
  by (auto simp: sprintf_push_def push_back_def split: if_splits)

lemma emit_clock:
  "emit ev now s = Inr s' \<Longrightarrow> clockInit s' = clockInit s \<and> startTime s' = startTime s"
  by (auto simp: emit_eq flush_if_full_frame split: if_splits option.splits
      dest!: sprintf_push_frame)

lemma trace_end_clock:
  "trace_end s = Inr s' \<Longrightarrow> clockInit s' = clockInit s \<and> startTime s' = startTime s"
  by (auto simp: trace_end_def Let_def ofstream_close_def ofstream_write_def trace_flush_frame
      split: if_splits option.splits)

lemma trace_start_clock:
  "(clockInit s \<longrightarrow> clockInit (fst (trace_start f ok now s)) \<and>
      startTime (fst (trace_start f ok now s)) = startTime s) \<and>
   (\<not> clockInit s \<longrightarrow>
      (if snd (trace_start f ok now s)
       then clockInit (fst (trace_start f ok now s)) \<and> startTime (fst (trace_start f ok now s)) = now
       else \<not> clockInit (fst (trace_start f ok now s)) \<and>
            startTime (fst (trace_start f ok now s)) = startTime s))"
  by (simp add: trace_start_def Let_def ofstream_open_def reserve_def ofstream_write_def
      split: option.splits)

lemma call_step_clock_set:
  "call_step c s = Inr s' \<Longrightarrow> clockInit s \<Longrightarrow> clockInit s' \<and> startTime s' = startTime s"
  using trace_start_clock [of s]
  by (cases c) (auto simp: trace_flush_frame dest: emit_clock trace_end_clock)

lemma call_step_clock_other:
  "call_step c s = Inr s' \<Longrightarrow> \<not> is_Start c \<Longrightarrow>
     clockInit s' = clockInit s \<and> startTime s' = startTime s"
  by (cases c) (auto simp: trace_flush_frame dest: emit_clock trace_end_clock)

lemma run_clock_set:
  "run cs s = Inr s' \<Longrightarrow> clockInit s \<Longrightarrow> clockInit s' \<and> startTime s' = startTime s"
proof (induction cs arbitrary: s)
  case Nil
  then show ?case by simp
next
  case (Cons c cs)
  then obtain s1 where step: "call_step c s = Inr s1" and rest: "run cs s1 = Inr s'"
    by (auto split: sum.splits)
  from call_step_clock_set [OF step Cons.prems(2)] Cons.IH [OF rest]
  show ?case by simp
qed

lemma run_clock_other:
  "run cs s = Inr s' \<Longrightarrow> \<forall>c \<in> set cs. \<not> is_Start c \<Longrightarrow>
     clockInit s' = clockInit s \<and> startTime s' = startTime s"
proof (induction cs arbitrary: s)
  case Nil
  then show ?case by simp
next
  case (Cons c cs)
  then obtain s1 where step: "call_step c s = Inr s1" and rest: "run cs s1 = Inr s'"
    by (auto split: sum.splits)
  from call_step_clock_other [OF step] Cons.IH [OF rest] Cons.prems(2)
  show ?case by simp
qed

lemma call_step_defined: "(\<exists>s'. call_step c s = Inr s') = defined_call c s"
proof (cases c)
  case (Emit ev now)
  then show ?thesis
    by (auto simp: emit_eq sprintf_push_def split: option.splits)
next
  case End
  have "2 \<le> length r \<longleftrightarrow> r \<noteq> [] \<and> butlast r \<noteq> []" for r :: string
    by (cases r rule: rev_cases) (auto simp: Suc_le_eq)
  with End show ?thesis
    by (auto simp: trace_end_def Let_def)
qed simp_all

lemma run_defined: "(\<exists>s'. run cs s = Inr s') = defined_run cs s"
proof (induction cs arbitrary: s)
  case Nil
  then show ?case by simp
next
  case (Cons c cs)
  show ?case
  proof (cases "call_step c s")
    case (Inl f)
    with call_step_defined [of c s] show ?thesis by simp
  next
    case (Inr s1)
    with call_step_defined [of c s] Cons.IH [of s1] show ?thesis by simp
  qed
qed

text \<open>
  Claim C7 fails as stated, for "every operation": an emit call whose record does not
  fit the 1000 bytes of \<^verbatim>\<open>stringBuffer\<close> writes past the end of that array, and the
  statics declared next to it are \<open>clockInit\<close> and \<open>startTime\<close>. After such a call in the
  first session, nothing is known about the clock origin of the second. The same holds
  after a \<open>trace_end\<close> on an empty buffer, which calls \<^verbatim>\<open>back()\<close> on an empty vector.
\<close>

theorem origin_lost_on_overflow:
  "run [Start ''a.json'' True 5, Emit (InstantGlobal (replicate 1000 CHR ''a'') 1) 7000, End,
        Start ''b.json'' True 900000] init_state = Inl StringBufferOverflow \<and>
   run [Start ''a.json'' True 5, End, Start ''b.json'' True 900000] init_state =
     Inl BackOnEmptyVector"
  by (simp add: eval_defs)

text \<open>
  Claim C7, amended. \<open>trace_start\<close> stores the clock reading in \<open>startTime\<close> only while
  \<open>clockInit\<close> is clear and only when it returns true, and then sets \<open>clockInit\<close>; with
  \<open>clockInit\<close> set, or when it returns false, it leaves both as they were. Every call
  within defined behaviour (any start or flush, an emit whose record is shorter than
  1000 characters, an end on a buffer whose last record has at least two characters)
  returns, keeps \<open>clockInit\<close> and \<open>startTime\<close> once \<open>clockInit\<close> is set, and changes
  neither when the call is not a start. The same holds for every sequence of such
  calls, whatever the number of start/end cycles in it.
\<close>

theorem clock_origin_captured_once:
  "(clockInit s \<longrightarrow>
      clockInit (fst (trace_start f ok now s)) \<and>
      startTime (fst (trace_start f ok now s)) = startTime s) \<and>
   (\<not> clockInit s \<longrightarrow>
      (if snd (trace_start f ok now s)
       then clockInit (fst (trace_start f ok now s)) \<and> startTime (fst (trace_start f ok now s)) = now
       else \<not> clockInit (fst (trace_start f ok now s)) \<and>
            startTime (fst (trace_start f ok now s)) = startTime s)) \<and>
   (defined_call c s \<longrightarrow>
      (\<exists>s1. call_step c s = Inr s1 \<and>
         (clockInit s \<longrightarrow> clockInit s1 \<and> startTime s1 = startTime s) \<and>
         (\<not> is_Start c \<longrightarrow> clockInit s1 = clockInit s \<and> startTime s1 = startTime s))) \<and>
   (defined_run cs s \<longrightarrow>
      (\<exists>s'. run cs s = Inr s' \<and>
         (clockInit s \<longrightarrow> clockInit s' \<and> startTime s' = startTime s) \<and>
         ((\<forall>c \<in> set cs. \<not> is_Start c) \<longrightarrow>
            clockInit s' = clockInit s \<and> startTime s' = startTime s)))"
proof -
  have step: "defined_call c s \<longrightarrow>
      (\<exists>s1. call_step c s = Inr s1 \<and>
         (clockInit s \<longrightarrow> clockInit s1 \<and> startTime s1 = startTime s) \<and>
         (\<not> is_Start c \<longrightarrow> clockInit s1 = clockInit s \<and> startTime s1 = startTime s))"
  proof
    assume "defined_call c s"
    then obtain s1 where s1: "call_step c s = Inr s1"
      using call_step_defined [of c s] by blast
    with call_step_clock_set [OF s1] call_step_clock_other [OF s1]
    show "\<exists>s1. call_step c s = Inr s1 \<and>
         (clockInit s \<longrightarrow> clockInit s1 \<and> startTime s1 = startTime s) \<and>
         (\<not> is_Start c \<longrightarrow> clockInit s1 = clockInit s \<and> startTime s1 = startTime s)"
      by blast
  qed
  have runs: "defined_run cs s \<longrightarrow>
      (\<exists>s'. run cs s = Inr s' \<and>
         (clockInit s \<longrightarrow> clockInit s' \<and> startTime s' = startTime s) \<and>
         ((\<forall>c \<in> set cs. \<not> is_Start c) \<longrightarrow>
            clockInit s' = clockInit s \<and> startTime s' = startTime s))"
  proof
    assume "defined_run cs s"
    then obtain s' where s': "run cs s = Inr s'"
      using run_defined [of cs s] by blast
    with run_clock_set [OF s'] run_clock_other [OF s']
    show "\<exists>s'. run cs s = Inr s' \<and>
         (clockInit s \<longrightarrow> clockInit s' \<and> startTime s' = startTime s) \<and>
         ((\<forall>c \<in> set cs. \<not> is_Start c) \<longrightarrow>
            clockInit s' = clockInit s \<and> startTime s' = startTime s)"
      by blast
  qed
  show ?thesis
    using trace_start_clock [of s f ok now] step runs by blast
qed

theorem clock_origin_captured_once_witness:
  "startTime (fst (trace_start ''a.json'' True 5 init_state)) = 5 \<and>
   map_sum id startTime
     (call_step (Emit (InstantGlobal ''e'' 1) 7000)
        (fst (trace_start ''a.json'' True 5 init_state))) = Inr 5 \<and>
   map_sum id startTime
     (run [Emit (InstantGlobal ''e'' 1) 7000, End, Start ''b.json'' True 900000,
           Emit (EventEnd 1) 9000, End]
        (fst (trace_start ''a.json'' True 5 init_state))) = Inr 5"
proof -
  let ?s1 = "fst (trace_start ''a.json'' True 5 init_state)"
  let ?c = "Emit (InstantGlobal ''e'' 1) 7000"
  let ?cs = "[Emit (InstantGlobal ''e'' 1) 7000, End, Start ''b.json'' True 900000,
           Emit (EventEnd 1) 9000, End]"
  have fresh: "\<not> clockInit init_state" "snd (trace_start ''a.json'' True 5 init_state)"
    by (simp_all add: eval_defs)
  from clock_origin_captured_once [of init_state "''a.json''" True 5 Flush "[]"] fresh
  have first: "clockInit ?s1 \<and> startTime ?s1 = 5"
    by simp
  have d: "defined_call ?c ?s1" "defined_run ?cs ?s1"
    by (simp_all add: eval_defs)
  from clock_origin_captured_once [of ?s1 "[]" True 0 ?c ?cs] first d
  have "\<exists>s'. run ?cs ?s1 = Inr s' \<and> startTime s' = 5"
    and "\<exists>s2. call_step ?c ?s1 = Inr s2 \<and> startTime s2 = 5"
    by auto
  with first show ?thesis by (auto simp del: call_step.simps run.simps)
qed

section \<open>Flushing an inactive session\<close>


lemma write_buffer: "dataVector (ofstream_write x t) = dataVector t"
  by (simp add: ofstream_write_def split: option.splits)

lemma close_buffer: "dataVector (ofstream_close t) = dataVector t"
  by (simp add: ofstream_close_def)

lemma trace_end_buffer: "trace_end s = Inr s' \<Longrightarrow> dataVector s' = []"
  by (auto simp: trace_end_def Let_def write_buffer close_buffer trace_flush_frame
      split: if_splits)

lemma call_step_inactive_buffer:
  "call_step c s = Inr s' \<Longrightarrow> traceActive s \<or> dataVector s = [] \<Longrightarrow>
     traceActive s' \<or> dataVector s' = []"
proof (cases c)
  case (Start f ok now)
  assume "call_step c s = Inr s'" "traceActive s \<or> dataVector s = []"
  with Start show ?thesis
    by (auto simp: trace_start_def Let_def ofstream_open_def reserve_def ofstream_write_def
        split: if_splits)
next
  case (Emit ev now)
  assume "call_step c s = Inr s'" "traceActive s \<or> dataVector s = []"
  with Emit show ?thesis
    by (auto simp: emit_eq flush_if_full_frame split: if_splits option.splits
        dest!: sprintf_push_frame)
next
  case Flush
  assume "call_step c s = Inr s'"
  with Flush show ?thesis by (auto simp: trace_flush_frame)
next
  case End
  assume "call_step c s = Inr s'"
  with End show ?thesis by (simp add: trace_end_buffer)
qed

lemma inactive_buffer_empty:
  "run cs s = Inr s' \<Longrightarrow> traceActive s \<or> dataVector s = [] \<Longrightarrow>
     traceActive s' \<or> dataVector s' = []"
proof (induction cs arbitrary: s)
  case Nil
  then show ?case by simp
next
  case (Cons c cs)
  then obtain s1 where step: "call_step c s = Inr s1" and rest: "run cs s1 = Inr s'"
    by (auto split: sum.splits)
  from call_step_inactive_buffer [OF step Cons.prems(2)] Cons.IH [OF rest]
  show ?case by simp
qed



section \<open>The size of a record\<close>

lemma show_nat_length: "0 < k \<Longrightarrow> n < 10 ^ k \<Longrightarrow> length (show_nat n) \<le> k"
proof (induction k arbitrary: n)
  case 0
  then show ?case by simp
next
  case (Suc k)
  show ?case
  proof (cases "n < 10")
    case True
    then show ?thesis by (simp add: show_nat_digit)
  next
    case False
    then have k: "0 < k" using Suc.prems by (cases k) auto
    have "n div 10 < 10 ^ k" using Suc.prems by (simp add: less_mult_imp_div_less mult.commute)
    from Suc.IH [OF k this] False show ?thesis
      by (subst show_nat.simps) simp
  qed
qed

lemma to_int_range: "- 2147483648 \<le> to_int x \<and> to_int x < 2147483648"
  using sint_ge [of "word_of_int x :: 32 word"] sint_lt [of "word_of_int x :: 32 word"]
  by (simp add: to_int_def)

lemma show_int_length: "- 2147483648 \<le> i \<Longrightarrow> i < 2147483648 \<Longrightarrow> length (show_int i) \<le> 11"
proof -
  assume a: "- 2147483648 \<le> i" "i < 2147483648"
  have "nat (- i) < 10 ^ 10" "nat i < 10 ^ 10" using a by simp_all
  then have "length (show_nat (nat (- i))) \<le> 10" "length (show_nat (nat i)) \<le> 10"
    using show_nat_length [of 10] by simp_all
  then show ?thesis by (simp add: show_int_def)
qed

lemma timestamp_length: "length (show_int (timestamp now s)) \<le> 11"
  using to_int_range show_int_length by (simp add: timestamp_def)

lemma fmt_event_end_fits: "length (fmt_event_end PID_VALUE TID_VALUE (timestamp now s)) < STRING_BUFFER_SIZE"
  using timestamp_length [of now s]
  by (simp add: fmt_event_end_def PID_VALUE_def TID_VALUE_def show_int_def show_nat_digit
      STRING_BUFFER_SIZE_def)

section \<open>Argument lists of different lengths\<close>

text \<open>
  Claim C8 fails as stated for long names: the degraded call formats the record without
  arguments into the 1000-byte \<^verbatim>\<open>stringBuffer\<close> with \<^verbatim>\<open>sprintf\<close>, and a name of 1000
  characters runs past its end.
\<close>

theorem start_args_overflow:
  "trace_event_start_args (replicate 1000 CHR ''a'') ''c'' [''x'', ''y''] [''1''] 1 5000
     (fst (trace_start ''trace.json'' True 0 init_state)) = Inl StringBufferOverflow"
  by (simp add: trace_event_start_args_def trace_event_start_def eval_defs fmt_event_start_def)

text \<open>
  Claim C8, amended. On an active session, \<open>trace_event_start_args\<close> with two argument
  names and one argument value, for a name and categories whose record without
  arguments is shorter than the 1000 bytes of \<^verbatim>\<open>stringBuffer\<close>, returns normally, appends
  its error message to \<^verbatim>\<open>std::cerr\<close>, and appends to the buffer (after the capacity test)
  exactly the record that \<open>trace_event_start\<close> formats, with the default thread id: a
  duration-begin record with no \<^verbatim>\<open>args\<close> field.
\<close>

theorem start_args_mismatch_degrades:
  assumes "traceActive s"
    and "length argumentNames = 2" and "length argumentValues = 1"
    and "length (fmt_event_start name categories PID_VALUE TID_VALUE (timestamp now s))
          < STRING_BUFFER_SIZE"
  shows \<open>\<exists>s'. trace_event_start_args name categories argumentNames argumentValues tid now s
            = Inr s' \<and>
          cerr s' = cerr s @ ''Error: Argument lists for '' @ name @
            '' in trace_event_start are not the same size; ignoring them.\<newline>'' \<and>
          dataVector s' = dataVector (flush_if_full s) @
            [fmt_event_start name categories PID_VALUE TID_VALUE (timestamp now s)] \<and>
          disk s' = disk (flush_if_full s)\<close>
  using assms
  by (simp add: emit_eq [of "EventStartArgs name categories argumentNames argumentValues tid",
        simplified] sprintf_push_def push_back_def)

theorem start_args_mismatch_degrades_witness:
  \<open>\<exists>s'. trace_event_start_args ''work'' ''cat'' [''x'', ''y''] [''1''] 7 5000
            (fst (trace_start ''trace.json'' True 0 init_state)) = Inr s' \<and>
        cerr s' = ''Error: Argument lists for work in trace_event_start are not the same size; ignoring them.\<newline>'' \<and>
        dataVector s' = [''{"name": "work", "cat": "cat", "ph": "B", "pid": 1, "tid": 1, "ts": 5},\<newline>''] \<and>
        disk s' = [''trace.json'' \<mapsto> ''[\<newline>'']\<close>
  using start_args_mismatch_degrades [of "fst (trace_start ''trace.json'' True 0 init_state)"
      "[''x'', ''y'']" "[''1'']" "''work''" "''cat''" 5000 7]
  by (simp add: eval_defs fmt_event_start_def)

text \<open>
  Claim C4 fails as stated: \<open>trace_counter\<close> with lists of different lengths reports
  the error and appends nothing (its message says "ignoring this event"), and the
  duration-begin variant runs past the end of \<^verbatim>\<open>stringBuffer\<close> for a name of 1000
  characters. Moreover the record that the duration-begin variant appends is not always
  the no-argument form of the event: called for thread 7 it appends the record of
  thread 1, where \<open>trace_event_start\<close> for thread 7 appends the record of thread 7.
\<close>

theorem counter_mismatch_drops:
  \<open>map_sum id dataVector
     (trace_counter ''c'' [''a'', ''b''] [''1''] 1 5000
        (fst (trace_start ''trace.json'' True 0 init_state))) = Inr [] \<and>
   trace_event_start_args (replicate 1000 CHR ''a'') ''c'' [''x''] [] 1 5000
     (fst (trace_start ''trace.json'' True 0 init_state)) = Inl StringBufferOverflow \<and>
   map_sum id dataVector
     (trace_event_start_args ''work'' ''cat'' [''x'', ''y''] [''1''] 7 5000
        (fst (trace_start ''trace.json'' True 0 init_state))) =
     Inr [''{"name": "work", "cat": "cat", "ph": "B", "pid": 1, "tid": 1, "ts": 5},\<newline>''] \<and>
   map_sum id dataVector
     (trace_event_start ''work'' ''cat'' 7 5000
        (fst (trace_start ''trace.json'' True 0 init_state))) =
     Inr [''{"name": "work", "cat": "cat", "ph": "B", "pid": 1, "tid": 7, "ts": 5},\<newline>'']\<close>
  by (simp add: trace_counter_def trace_event_start_args_def trace_event_start_def eval_defs
      fmt_event_start_def)

text \<open>
  Claim C4, amended. On an active session and with lists of different lengths:
  \<open>trace_event_start_args\<close> reports an error and appends a duration-begin record
  without arguments, with the name and categories of the call, provided the record is
  shorter than the 1000 bytes of \<^verbatim>\<open>stringBuffer\<close>; \<open>trace_event_end_args\<close> reports an
  error and appends a duration-end record without arguments; in both, the record carries
  the thread id of the call when that is the default thread id. \<open>trace_counter\<close> reports
  an error and appends nothing. None of the three calls faults.
\<close>

theorem args_mismatch:
  assumes "traceActive s" and "length ns \<noteq> length vs"
  shows \<open>((\<forall>r. record_of (EventStartArgs name categories ns vs tid) (timestamp now s) = Some r
              \<longrightarrow> length r < STRING_BUFFER_SIZE) \<longrightarrow>
          (\<exists>s' t. trace_event_start_args name categories ns vs tid now s = Inr s' \<and>
             cerr s' = cerr s @ ''Error: Argument lists for '' @ name @
               '' in trace_event_start are not the same size; ignoring them.\<newline>'' \<and>
             dataVector s' = dataVector (flush_if_full s) @
               [fmt_event_start name categories PID_VALUE t (timestamp now s)] \<and>
             (tid = TID_VALUE \<longrightarrow> t = tid))) \<and>
         (\<exists>s' t. trace_event_end_args ns vs tid now s = Inr s' \<and>
             cerr s' = cerr s @
               ''Error: Argument lists in trace_event_end are not the same size; ignoring them.\<newline>'' \<and>
             dataVector s' = dataVector (flush_if_full s) @
               [fmt_event_end PID_VALUE t (timestamp now s)] \<and>
             (tid = TID_VALUE \<longrightarrow> t = tid)) \<and>
         (\<exists>s'. trace_counter name ns vs tid now s = Inr s' \<and>
             cerr s' = cerr s @ ''Error: Argument lists for '' @ name @
               '' in trace_counter are not the same size; ignoring this event.\<newline>'' \<and>
             dataVector s' = dataVector (flush_if_full s))\<close>
proof -
  have start: \<open>\<exists>s' t. trace_event_start_args name categories ns vs tid now s = Inr s' \<and>
             cerr s' = cerr s @ ''Error: Argument lists for '' @ name @
               '' in trace_event_start are not the same size; ignoring them.\<newline>'' \<and>
             dataVector s' = dataVector (flush_if_full s) @
               [fmt_event_start name categories PID_VALUE t (timestamp now s)] \<and>
             (tid = TID_VALUE \<longrightarrow> t = tid)\<close>
    if "\<forall>r. record_of (EventStartArgs name categories ns vs tid) (timestamp now s) = Some r
              \<longrightarrow> length r < STRING_BUFFER_SIZE"
  proof -
    from that assms(2)
    have "length (fmt_event_start name categories PID_VALUE TID_VALUE (timestamp now s))
        < STRING_BUFFER_SIZE"
      by simp
    with assms
    have \<open>\<exists>s'. trace_event_start_args name categories ns vs tid now s = Inr s' \<and>
             cerr s' = cerr s @ ''Error: Argument lists for '' @ name @
               '' in trace_event_start are not the same size; ignoring them.\<newline>'' \<and>
             dataVector s' = dataVector (flush_if_full s) @
               [fmt_event_start name categories PID_VALUE TID_VALUE (timestamp now s)]\<close>
      by (simp add: emit_eq [of "EventStartArgs name categories ns vs tid", simplified]
            sprintf_push_def push_back_def)
    then obtain s' where \<open>trace_event_start_args name categories ns vs tid now s = Inr s' \<and>
             cerr s' = cerr s @ ''Error: Argument lists for '' @ name @
               '' in trace_event_start are not the same size; ignoring them.\<newline>'' \<and>
             dataVector s' = dataVector (flush_if_full s) @
               [fmt_event_start name categories PID_VALUE TID_VALUE (timestamp now s)]\<close> ..
    then show ?thesis
      by (intro exI [of _ s'] exI [of _ TID_VALUE]) blast
  qed
  have "end": \<open>\<exists>s' t. trace_event_end_args ns vs tid now s = Inr s' \<and>
             cerr s' = cerr s @
               ''Error: Argument lists in trace_event_end are not the same size; ignoring them.\<newline>'' \<and>
             dataVector s' = dataVector (flush_if_full s) @
               [fmt_event_end PID_VALUE t (timestamp now s)] \<and>
             (tid = TID_VALUE \<longrightarrow> t = tid)\<close>
  proof -
    have \<open>\<exists>s'. trace_event_end_args ns vs tid now s = Inr s' \<and>
             cerr s' = cerr s @
               ''Error: Argument lists in trace_event_end are not the same size; ignoring them.\<newline>'' \<and>
             dataVector s' = dataVector (flush_if_full s) @
               [fmt_event_end PID_VALUE TID_VALUE (timestamp now s)]\<close>
      using assms fmt_event_end_fits [of now s]
      by (simp add: emit_eq [of "EventEndArgs ns vs tid", simplified]
          sprintf_push_def push_back_def)
    then obtain s' where \<open>trace_event_end_args ns vs tid now s = Inr s' \<and>
             cerr s' = cerr s @
               ''Error: Argument lists in trace_event_end are not the same size; ignoring them.\<newline>'' \<and>
             dataVector s' = dataVector (flush_if_full s) @
               [fmt_event_end PID_VALUE TID_VALUE (timestamp now s)]\<close> ..
    then show ?thesis
      by (intro exI [of _ s'] exI [of _ TID_VALUE]) blast
  qed
  have counter: \<open>\<exists>s'. trace_counter name ns vs tid now s = Inr s' \<and>
             cerr s' = cerr s @ ''Error: Argument lists for '' @ name @
               '' in trace_counter are not the same size; ignoring this event.\<newline>'' \<and>
             dataVector s' = dataVector (flush_if_full s)\<close>
    using assms
    by (simp add: emit_eq [of "Counter name ns vs tid", simplified])
  from start "end" counter show ?thesis by blast
qed

theorem args_mismatch_witness:
  \<open>(\<exists>s'. trace_event_start_args ''work'' ''cat'' [''x'', ''y''] [''1''] 1 5000
            (fst (trace_start ''trace.json'' True 0 init_state)) = Inr s' \<and>
        cerr s' = ''Error: Argument lists for work in trace_event_start are not the same size; ignoring them.\<newline>'' \<and>
        dataVector s' = [''{"name": "work", "cat": "cat", "ph": "B", "pid": 1, "tid": 1, "ts": 5},\<newline>'']) \<and>
    (\<exists>s'. trace_event_end_args [''x'', ''y''] [''1''] 1 5000
            (fst (trace_start ''trace.json'' True 0 init_state)) = Inr s' \<and>
        cerr s' = ''Error: Argument lists in trace_event_end are not the same size; ignoring them.\<newline>'' \<and>
        dataVector s' = [''{"ph": "E", "pid": 1, "tid": 1, "ts": 5},\<newline>'']) \<and>
    (\<exists>s'. trace_counter ''work'' [''x'', ''y''] [''1''] 1 5000
            (fst (trace_start ''trace.json'' True 0 init_state)) = Inr s' \<and>
        cerr s' = ''Error: Argument lists for work in trace_counter are not the same size; ignoring this event.\<newline>'' \<and>
        dataVector s' = [])\<close>
  using args_mismatch [of "fst (trace_start ''trace.json'' True 0 init_state)"
      "[''x'', ''y'']" "[''1'']" "''work''" "''cat''" 1 5000]
  by (simp add: eval_defs fmt_event_start_def)

section \<open>Starting twice\<close>

lemma fold_write_failed: "traceFile_fail s \<Longrightarrow> fold ofstream_write xs s = s"
  by (induction xs) (simp_all add: ofstream_write_def)

lemma trace_flush_failed:
  "traceFile_fail s \<Longrightarrow> disk (trace_flush s) = disk s \<and> traceFile_fail (trace_flush s)"
  by (simp add: trace_flush_def fold_write_failed)

lemma flush_if_full_failed:
  "traceFile_fail s \<Longrightarrow> disk (flush_if_full s) = disk s \<and> traceFile_fail (flush_if_full s)"
  by (simp add: flush_if_full_def trace_flush_failed)

lemma emit_failed:
  "traceFile_fail s \<Longrightarrow> emit ev now s = Inr s' \<Longrightarrow> disk s' = disk s \<and> traceFile_fail s'"
  by (auto simp: emit_eq flush_if_full_failed split: if_splits option.splits
      dest!: sprintf_push_frame)

lemma trace_end_failed:
  "traceFile_fail s \<Longrightarrow> trace_end s = Inr s' \<Longrightarrow> disk s' = disk s \<and> traceFile_fail s'"
  by (auto simp: trace_end_def Let_def trace_flush_def fold_write_failed ofstream_write_def
      ofstream_close_def split: if_splits)

lemma call_step_failed:
  "traceFile_fail s \<Longrightarrow> \<not> is_Start c \<Longrightarrow> call_step c s = Inr s' \<Longrightarrow>
     disk s' = disk s \<and> traceFile_fail s'"
  by (cases c) (auto simp: trace_flush_failed dest: emit_failed trace_end_failed)

lemma run_failed:
  "traceFile_fail s \<Longrightarrow> \<forall>c \<in> set cs. \<not> is_Start c \<Longrightarrow> run cs s = Inr s' \<Longrightarrow>
     disk s' = disk s \<and> traceFile_fail s'"
proof (induction cs arbitrary: s)
  case Nil
  then show ?case by simp
next
  case (Cons c cs)
  then obtain s1 where step: "call_step c s = Inr s1" and rest: "run cs s1 = Inr s'"
    by (auto split: sum.splits)
  from Cons.prems have "\<not> is_Start c" and others: "\<forall>c \<in> set cs. \<not> is_Start c" by simp_all
  from call_step_failed [OF Cons.prems(1) this(1) step]
  have "disk s1 = disk s" "traceFile_fail s1" by simp_all
  with Cons.IH [OF this(2) others rest] show ?case by simp
qed

lemma trace_start_on_open_sink:
  assumes "traceFile s = Some p"
  shows "snd (trace_start filename ok now s) \<and>
         traceActive (fst (trace_start filename ok now s)) \<and>
         dataVector (fst (trace_start filename ok now s)) = dataVector s \<and>
         traceFile (fst (trace_start filename ok now s)) = Some p \<and>
         disk (fst (trace_start filename ok now s)) = disk s \<and>
         traceFile_fail (fst (trace_start filename ok now s))"
  using assms
  by (simp add: trace_start_def ofstream_open_def reserve_def ofstream_write_def Let_def)

text \<open>
  Claim C5, evaluated where it fails. After \<open>trace_start\<close> on \<^verbatim>\<open>a.json\<close> and one instant
  event, a second \<open>trace_start\<close>, on \<^verbatim>\<open>b.json\<close>, returns true, although its
  \<^verbatim>\<open>open\<close> has failed: the stream already had a file open, so \<^verbatim>\<open>open\<close> only sets the
  stream's error state, and \<^verbatim>\<open>is_open()\<close>, the test that \<open>trace_start\<close> makes, is still
  true. The state after it is the state before it with the error state set: the record
  is still in the buffer, the stream is still on \<^verbatim>\<open>a.json\<close>, no file exists at
  \<^verbatim>\<open>b.json\<close>. The \<open>trace_end\<close> that follows writes nothing: \<^verbatim>\<open>a.json\<close> keeps its
  opening bracket alone, and the record is lost.
\<close>

theorem restart_keeps_buffer:
  \<open>let s2 = \<lparr>traceActive = True,
       dataVector = [''{"name": "e", "ph": "i", "pid": 1, "tid": 1, "s": "g", "ts": 5},\<newline>''],
       dataVector_capacity = 10000, traceFile = Some ''a.json'', traceFile_fail = False,
       disk = [''a.json'' \<mapsto> ''[\<newline>''], cerr = [], clockInit = True, startTime = 0\<rparr>
   in run [Start ''a.json'' True 0, Emit (InstantGlobal ''e'' 1) 5000] init_state = Inr s2 \<and>
      trace_start ''b.json'' True 9000 s2 = (s2\<lparr>traceFile_fail := True\<rparr>, True) \<and>
      trace_end (s2\<lparr>traceFile_fail := True\<rparr>) =
        Inr (s2\<lparr>traceActive := False, dataVector := [], traceFile := None,
               traceFile_fail := True\<rparr>)\<close>
  by (simp add: eval_defs)

section \<open>What a session writes\<close>

lemma disk_upd_same: "disk s p = Some y \<Longrightarrow> s\<lparr>disk := (disk s)(p \<mapsto> y)\<rparr> = s"
  by (simp add: map_upd_triv)

lemma fold_write_ready:
  "sink_ready s p \<Longrightarrow>
     fold ofstream_write xs s = s\<lparr>disk := (disk s)(p \<mapsto> sink_text s p @ concat xs)\<rparr>"
proof (induction xs arbitrary: s)
  case Nil
  then obtain y where y: "disk s p = Some y" by (auto simp: sink_ready_def)
  then have "(disk s)(p \<mapsto> y) = disk s" by (rule map_upd_triv)
  with y show ?case by (simp add: sink_text_def)
next
  case (Cons x xs)
  let ?s1 = "s\<lparr>disk := (disk s)(p \<mapsto> sink_text s p @ x)\<rparr>"
  have s1: "ofstream_write x s = ?s1"
    using Cons.prems by (auto simp: ofstream_write_def sink_ready_def sink_text_def disk_upd_same)
  have ready: "sink_ready ?s1 p" and st: "sink_text ?s1 p = sink_text s p @ x"
    using Cons.prems by (simp_all add: sink_ready_def sink_text_def)
  have "fold ofstream_write (x # xs) s = fold ofstream_write xs ?s1"
    by (simp add: s1)
  also have "\<dots> = ?s1\<lparr>disk := (disk ?s1)(p \<mapsto> sink_text ?s1 p @ concat xs)\<rparr>"
    by (rule Cons.IH [OF ready])
  also have "\<dots> = s\<lparr>disk := (disk s)(p \<mapsto> sink_text s p @ concat (x # xs))\<rparr>"
    by (simp add: st)
  finally show ?case .
qed

lemma trace_flush_ready:
  "sink_ready s p \<Longrightarrow>
     trace_flush s = s\<lparr>disk := (disk s)(p \<mapsto> pending s p), dataVector := []\<rparr>"
  by (simp add: trace_flush_def fold_write_ready pending_def)

lemma flush_if_full_ready:
  "sink_ready s p \<Longrightarrow>
     sink_ready (flush_if_full s) p \<and>
     (\<forall>q. q \<noteq> p \<longrightarrow> disk (flush_if_full s) q = disk s q) \<and>
     (\<exists>done. dataVector s = done @ dataVector (flush_if_full s) \<and>
        sink_text (flush_if_full s) p = sink_text s p @ concat done)"
  by (simp add: flush_if_full_def trace_flush_ready)
     (simp add: sink_ready_def pending_def sink_text_def)

lemma timestamp_eq: "timestamp now s = to_int (to_microseconds (now - startTime s))"
  by (simp add: timestamp_def)

lemma emit_ready:
  assumes "sink_ready s p"
  shows "case record_of ev (timestamp now s) of
      None \<Rightarrow> (\<exists>s'. emit ev now s = Inr s' \<and> sink_ready s' p \<and>
                startTime s' = startTime s \<and> (\<forall>q. q \<noteq> p \<longrightarrow> disk s' q = disk s q) \<and>
                (\<exists>done. dataVector s = done @ dataVector s' \<and>
                   sink_text s' p = sink_text s p @ concat done))
    | Some r \<Rightarrow>
        if length r < STRING_BUFFER_SIZE then
          (\<exists>s'. emit ev now s = Inr s' \<and> sink_ready s' p \<and>
                startTime s' = startTime s \<and> (\<forall>q. q \<noteq> p \<longrightarrow> disk s' q = disk s q) \<and>
                (\<exists>done. dataVector s @ [r] = done @ dataVector s' \<and>
                   sink_text s' p = sink_text s p @ concat done))
        else emit ev now s = Inl StringBufferOverflow"
proof -
  let ?t = "(flush_if_full s)\<lparr>cerr := cerr s @ report_of ev\<rparr>"
  from flush_if_full_ready [OF assms] obtain d where
    d: "dataVector s = d @ dataVector (flush_if_full s)"
       "sink_text (flush_if_full s) p = sink_text s p @ concat d"
    by blast
  from flush_if_full_ready [OF assms]
  have t: "sink_ready ?t p" "startTime ?t = startTime s"
    "\<forall>q. q \<noteq> p \<longrightarrow> disk ?t q = disk s q"
    by (simp_all add: sink_ready_def flush_if_full_frame)
  have td: "dataVector s = d @ dataVector ?t" "sink_text ?t p = sink_text s p @ concat d"
    using d by (simp_all add: sink_text_def)
  have act: "traceActive s" using assms by (simp add: sink_ready_def)
  show ?thesis
  proof (cases "record_of ev (timestamp now s)")
    case None
    with act t td show ?thesis by (auto simp: emit_eq)
  next
    case (Some r)
    show ?thesis
    proof (cases "length r < STRING_BUFFER_SIZE")
      case True
      have pb: "sink_ready (push_back r ?t) p"
        "startTime (push_back r ?t) = startTime ?t"
        "\<forall>q. disk (push_back r ?t) q = disk ?t q"
        "dataVector (push_back r ?t) = dataVector ?t @ [r]"
        "sink_text (push_back r ?t) p = sink_text ?t p"
        using t(1) by (simp_all add: push_back_def sink_ready_def sink_text_def)
      have "dataVector s @ [r] = d @ dataVector (push_back r ?t)"
        using td(1) pb(4) by simp
      with pb td(2) t
      have "sink_ready (push_back r ?t) p \<and> startTime (push_back r ?t) = startTime s \<and>
          (\<forall>q. q \<noteq> p \<longrightarrow> disk (push_back r ?t) q = disk s q) \<and>
          (\<exists>done. dataVector s @ [r] = done @ dataVector (push_back r ?t) \<and>
             sink_text (push_back r ?t) p = sink_text s p @ concat done)"
        by auto
      with Some True act show ?thesis
        by (simp add: emit_eq sprintf_push_def)
    next
      case False
      with Some act show ?thesis by (simp add: emit_eq sprintf_push_def)
    qed
  qed
qed

lemma record_of_terminated: "record_of ev ts = Some r \<Longrightarrow> terminated r"
  by (cases ev)
     (auto simp: terminated_def fmt_event_start_def fmt_event_end_def fmt_object_def
        fmt_instant_global_def fmt_args_close_def split: if_splits)

lemma emit_terminated:
  assumes "\<forall>r \<in> set (dataVector s). terminated r" and "emit ev now s = Inr s'"
  shows "\<forall>r \<in> set (dataVector s'). terminated r"
proof -
  have fl: "set (dataVector (flush_if_full s)) \<subseteq> set (dataVector s)"
    by (simp add: flush_if_full_def trace_flush_frame)
  show ?thesis
  proof (cases "traceActive s")
    case False
    with assms show ?thesis by (simp add: emit_eq)
  next
    case True
    show ?thesis
    proof (cases "record_of ev (timestamp now s)")
      case None
      with True assms fl show ?thesis by (auto simp: emit_eq)
    next
      case (Some r)
      with True assms(2)
      have "dataVector s' = dataVector (flush_if_full s) @ [r]"
        by (auto simp: emit_eq dest!: sprintf_push_frame)
      with assms(1) fl record_of_terminated [OF Some] show ?thesis by auto
    qed
  qed
qed

lemma run_ready:
  assumes "sink_ready s p" and "\<forall>c \<in> set cs. is_Emit c \<or> c = Flush"
    and "\<forall>r \<in> set (dataVector s). terminated r"
  shows "if \<forall>r \<in> set (appended (startTime s) cs). length r < STRING_BUFFER_SIZE
         then \<exists>s'. run cs s = Inr s' \<and> sink_ready s' p \<and>
                startTime s' = startTime s \<and> (\<forall>q. q \<noteq> p \<longrightarrow> disk s' q = disk s q) \<and>
                (\<forall>r \<in> set (dataVector s'). terminated r) \<and>
                (\<exists>done. dataVector s @ appended (startTime s) cs = done @ dataVector s' \<and>
                   sink_text s' p = sink_text s p @ concat done)
         else run cs s = Inl StringBufferOverflow"
  using assms
proof (induction cs arbitrary: s)
  case Nil
  then show ?case by simp
next
  case (Cons c cs)
  from Cons.prems(2) have rest: "\<forall>c \<in> set cs. is_Emit c \<or> c = Flush" by simp
  have step: "\<And>s1 rs. call_step c s = Inr s1 \<Longrightarrow> sink_ready s1 p \<Longrightarrow>
      startTime s1 = startTime s \<Longrightarrow> \<forall>q. q \<noteq> p \<longrightarrow> disk s1 q = disk s q \<Longrightarrow>
      \<forall>r \<in> set (dataVector s1). terminated r \<Longrightarrow>
      \<exists>done. dataVector s @ rs = done @ dataVector s1 \<and>
         sink_text s1 p = sink_text s p @ concat done \<Longrightarrow>
      appended (startTime s) (c # cs) = rs @ appended (startTime s) cs \<Longrightarrow>
      \<forall>r \<in> set rs. length r < STRING_BUFFER_SIZE \<Longrightarrow> ?case"
  proof -
    fix s1 rs
    assume a: "call_step c s = Inr s1" "sink_ready s1 p" "startTime s1 = startTime s"
      "\<forall>q. q \<noteq> p \<longrightarrow> disk s1 q = disk s q" "\<forall>r \<in> set (dataVector s1). terminated r"
      "\<exists>done. dataVector s @ rs = done @ dataVector s1 \<and>
         sink_text s1 p = sink_text s p @ concat done"
      "appended (startTime s) (c # cs) = rs @ appended (startTime s) cs"
      "\<forall>r \<in> set rs. length r < STRING_BUFFER_SIZE"
    from a(6) obtain d1 where d1: "dataVector s @ rs = d1 @ dataVector s1"
      "sink_text s1 p = sink_text s p @ concat d1" by blast
    note ih = Cons.IH [OF a(2) rest a(5)]
    show ?case
    proof (cases "\<forall>r \<in> set (appended (startTime s) cs). length r < STRING_BUFFER_SIZE")
      case True
      with ih a(3) obtain s' d2 where s': "run cs s1 = Inr s'" "sink_ready s' p"
        "startTime s' = startTime s" "\<forall>q. q \<noteq> p \<longrightarrow> disk s' q = disk s1 q"
        "\<forall>r \<in> set (dataVector s'). terminated r"
        "dataVector s1 @ appended (startTime s) cs = d2 @ dataVector s'"
        "sink_text s' p = sink_text s1 p @ concat d2"
        by auto
      have "dataVector s @ appended (startTime s) (c # cs) = (d1 @ d2) @ dataVector s'"
        using a(7) d1(1) s'(6) by (metis append.assoc)
      moreover have "sink_text s' p = sink_text s p @ concat (d1 @ d2)"
        using d1(2) s'(7) by simp
      ultimately have "\<exists>done. dataVector s @ appended (startTime s) (c # cs)
            = done @ dataVector s' \<and> sink_text s' p = sink_text s p @ concat done"
        by blast
      moreover have "\<forall>r \<in> set (appended (startTime s) (c # cs)). length r < STRING_BUFFER_SIZE"
        using True a(7,8) by auto
      ultimately show ?thesis
        using a(1,4) s'(1-5) by simp
    next
      case False
      with ih a(3) have "run cs s1 = Inl StringBufferOverflow" by simp
      moreover have "\<not> (\<forall>r \<in> set (appended (startTime s) (c # cs)).
          length r < STRING_BUFFER_SIZE)"
        using False a(7) by auto
      ultimately show ?thesis using a(1) by simp
    qed
  qed
  show ?case
  proof (cases c)
    case (Emit ev now)
    note er = emit_ready [OF Cons.prems(1), of ev now]
    show ?thesis
    proof (cases "record_of ev (timestamp now s)")
      case None
      with er obtain s1 where s1: "emit ev now s = Inr s1" "sink_ready s1 p"
        "startTime s1 = startTime s" "\<forall>q. q \<noteq> p \<longrightarrow> disk s1 q = disk s q"
        "\<exists>done. dataVector s = done @ dataVector s1 \<and>
           sink_text s1 p = sink_text s p @ concat done"
        by auto
      from emit_terminated [OF Cons.prems(3) s1(1)]
      have tm: "\<forall>r \<in> set (dataVector s1). terminated r" .
      show ?thesis
        using step [of s1 "[]"] s1 tm None Emit by (simp add: timestamp_eq)
    next
      case (Some r)
      show ?thesis
      proof (cases "length r < STRING_BUFFER_SIZE")
        case True
        with er Some obtain s1 where s1: "emit ev now s = Inr s1" "sink_ready s1 p"
          "startTime s1 = startTime s" "\<forall>q. q \<noteq> p \<longrightarrow> disk s1 q = disk s q"
          "\<exists>done. dataVector s @ [r] = done @ dataVector s1 \<and>
             sink_text s1 p = sink_text s p @ concat done"
          by auto
        from emit_terminated [OF Cons.prems(3) s1(1)]
        have tm: "\<forall>r \<in> set (dataVector s1). terminated r" .
        show ?thesis
          using step [of s1 "[r]"] s1 tm Some Emit True by (simp add: timestamp_eq)
      next
        case False
        with er Some Emit show ?thesis by (auto simp: timestamp_eq)
      qed
    qed
  next
    case Flush
    let ?s1 = "trace_flush s"
    from trace_flush_ready [OF Cons.prems(1)]
    have s1: "sink_ready ?s1 p" "startTime ?s1 = startTime s"
      "\<forall>q. q \<noteq> p \<longrightarrow> disk ?s1 q = disk s q" "dataVector ?s1 = []"
      "sink_text ?s1 p = sink_text s p @ concat (dataVector s)"
      using Cons.prems(1) by (simp_all add: sink_ready_def pending_def sink_text_def)
    show ?thesis
      using step [of ?s1 "[]"] s1 Flush by simp
  next
    case (Start f ok now)
    with Cons.prems(2) show ?thesis by simp
  next
    case End
    with Cons.prems(2) show ?thesis by simp
  qed
qed

lemma strip_terminated: "terminated r \<Longrightarrow> butlast (butlast (xs @ r)) = xs @ butlast (butlast r)"
  by (auto simp: terminated_def butlast_append)

lemma terminated_append: "terminated r \<Longrightarrow> terminated (xs @ r)"
  by (auto simp: terminated_def)

lemma trace_end_ready:
  assumes "sink_ready s p" and "dataVector s \<noteq> []" and "\<forall>r \<in> set (dataVector s). terminated r"
  shows \<open>\<exists>s'. trace_end s = Inr s' \<and>
           disk s' p = Some (butlast (butlast (pending s p)) @ ''\<newline>]'') \<and>
           traceFile s' = None \<and> \<not> traceActive s' \<and> dataVector s' = [] \<and>
           (\<forall>q. q \<noteq> p \<longrightarrow> disk s' q = disk s q)\<close>
proof -
  let ?l = "last (dataVector s)"
  let ?s1 = "s\<lparr>dataVector := butlast (dataVector s) @ [butlast (butlast ?l)]\<rparr>"
  have l: "terminated ?l" using assms(2,3) by simp
  then have nonempty: "?l \<noteq> []" "butlast ?l \<noteq> []"
    by (auto simp: terminated_def butlast_append)
  have "concat (dataVector s) = concat (butlast (dataVector s) @ [?l])"
    using assms(2) by simp
  also have "\<dots> = concat (butlast (dataVector s)) @ ?l"
    by (simp only: concat_append concat.simps append_Nil2)
  finally have "pending s p = (sink_text s p @ concat (butlast (dataVector s))) @ ?l"
    by (simp add: pending_def)
  then have strip: "butlast (butlast (pending s p)) =
      sink_text s p @ concat (butlast (dataVector s)) @ butlast (butlast ?l)"
    using strip_terminated [OF l, of "sink_text s p @ concat (butlast (dataVector s))"] by simp
  have ready: "sink_ready ?s1 p" using assms(1) by (simp add: sink_ready_def)
  have p1: "pending ?s1 p = butlast (butlast (pending s p))"
    by (simp add: strip) (simp add: pending_def sink_text_def)
  show ?thesis
    using nonempty assms(1,2) p1
    by (simp add: trace_end_def Let_def trace_flush_ready [OF ready])
       (simp add: ofstream_write_def ofstream_close_def sink_ready_def)
qed


lemma run_append:
  "run (xs @ ys) s = (case run xs s of Inl f \<Rightarrow> Inl f | Inr s' \<Rightarrow> run ys s')"
  by (induction xs arbitrary: s) (simp_all split: sum.splits)

lemma start_fresh:
  assumes "traceFile s0 = None" and "dataVector s0 = []"
  shows \<open>sink_ready (fst (trace_start f True now s0)) f \<and>
         sink_text (fst (trace_start f True now s0)) f = ''[\<newline>'' \<and>
         dataVector (fst (trace_start f True now s0)) = [] \<and>
         startTime (fst (trace_start f True now s0)) = (if clockInit s0 then startTime s0 else now) \<and>
         (\<forall>q. q \<noteq> f \<longrightarrow> disk (fst (trace_start f True now s0)) q = disk s0 q)\<close>
  using assms
  by (simp add: trace_start_def ofstream_open_def reserve_def ofstream_write_def Let_def
      sink_ready_def sink_text_def)

section \<open>The timestamps of a sequence of emit calls\<close>

lemma show_nat_numeral:
  "show_nat (numeral k) =
     (if (numeral k :: nat) < 10 then [digit_char (numeral k)]
      else show_nat (numeral k div 10) @ [digit_char (numeral k mod 10)])"
  by (rule show_nat.simps)

lemma emit_pending:
  assumes "sink_ready s p"
    and "\<forall>r. record_of ev (timestamp now s) = Some r \<longrightarrow> length r < STRING_BUFFER_SIZE"
  shows "\<exists>s'. emit ev now s = Inr s' \<and> sink_ready s' p \<and> startTime s' = startTime s \<and>
           pending s' p = pending s p @ concat (rendered [(ev, timestamp now s)])"
proof (cases "record_of ev (timestamp now s)")
  case None
  with emit_ready [OF assms(1), of ev now] show ?thesis
    by (auto simp: pending_def)
next
  case (Some r)
  with assms(2) have "length r < STRING_BUFFER_SIZE" by simp
  with Some emit_ready [OF assms(1), of ev now]
  obtain s' d where s': "emit ev now s = Inr s'" "sink_ready s' p" "startTime s' = startTime s"
    "dataVector s @ [r] = d @ dataVector s'" "sink_text s' p = sink_text s p @ concat d"
    by auto
  have "concat (dataVector s) @ r = concat (dataVector s @ [r])" by simp
  also have "\<dots> = concat d @ concat (dataVector s')" by (simp only: s'(4) concat_append)
  finally have "pending s' p = pending s p @ r" using s'(5) by (simp add: pending_def)
  with s' Some show ?thesis by simp
qed

lemma emit_active:
  assumes "traceActive s"
    and "\<forall>r. record_of ev (timestamp now s) = Some r \<longrightarrow> length r < STRING_BUFFER_SIZE"
  shows "\<exists>s'. emit ev now s = Inr s' \<and> traceActive s' \<and> startTime s' = startTime s \<and>
           dataVector s' = dataVector (flush_if_full s) @ rendered [(ev, timestamp now s)]"
  using assms
  by (auto simp: emit_eq sprintf_push_def push_back_def flush_if_full_frame
      split: option.splits)

lemma flush_if_full_buffer:
  "dataVector (flush_if_full s) = dataVector s \<or> dataVector (flush_if_full s) = []"
  by (simp add: flush_if_full_def trace_flush_frame)

lemma run_emits_active:
  assumes "traceActive s"
    and "\<forall>e \<in> set es. startTime s \<le> snd e \<and> snd e - startTime s < 2147483648000"
    and "\<forall>r \<in> set (rendered (map (\<lambda>e. (fst e, (snd e - startTime s) div 1000)) es)).
           length r < STRING_BUFFER_SIZE"
  shows "\<exists>s' flushed. run (map (\<lambda>e. Emit (fst e) (snd e)) es) s = Inr s' \<and>
           dataVector s @ rendered (map (\<lambda>e. (fst e, (snd e - startTime s) div 1000)) es) =
             flushed @ dataVector s'"
  using assms
proof (induction es arbitrary: s)
  case Nil
  then show ?case by simp
next
  case (Cons e es)
  obtain ev now where e: "e = (ev, now)" by (cases e)
  from Cons.prems(2) e have range: "startTime s \<le> now" "now - startTime s < 2147483648000"
    by simp_all
  then have ts: "timestamp now s = (now - startTime s) div 1000"
    by (rule timestamp_in_range)
  have "\<forall>r. record_of ev (timestamp now s) = Some r \<longrightarrow> length r < STRING_BUFFER_SIZE"
    using Cons.prems(3) e ts by simp
  from emit_active [OF Cons.prems(1) this]
  obtain s1 where s1: "emit ev now s = Inr s1" "traceActive s1" "startTime s1 = startTime s"
    "dataVector s1 = dataVector (flush_if_full s) @ rendered [(ev, timestamp now s)]"
    by blast
  let ?rest = "rendered (map (\<lambda>e. (fst e, (snd e - startTime s) div 1000)) es)"
  have "\<exists>s' flushed. run (map (\<lambda>e. Emit (fst e) (snd e)) es) s1 = Inr s' \<and>
           dataVector s1 @ rendered (map (\<lambda>e. (fst e, (snd e - startTime s1) div 1000)) es) =
             flushed @ dataVector s'"
    using Cons.prems(2,3) s1(2,3) e by (intro Cons.IH) (simp_all split: option.splits)
  then obtain s' flushed where s': "run (map (\<lambda>e. Emit (fst e) (snd e)) es) s1 = Inr s'"
    "dataVector s1 @ ?rest = flushed @ dataVector s'"
    using s1(3) by auto
  have all: "rendered (map (\<lambda>e. (fst e, (snd e - startTime s) div 1000)) (e # es)) =
      rendered [(ev, timestamp now s)] @ ?rest"
    using e ts by simp
  from flush_if_full_buffer [of s]
  have "\<exists>pre. dataVector s @ rendered [(ev, timestamp now s)] @ ?rest = pre @ dataVector s'"
  proof
    assume "dataVector (flush_if_full s) = dataVector s"
    with s1(4) s'(2) show ?thesis by (intro exI [of _ flushed]) simp
  next
    assume "dataVector (flush_if_full s) = []"
    with s1(4) s'(2) show ?thesis by (intro exI [of _ "dataVector s @ flushed"]) simp
  qed
  with s1(1) s'(1) e ts show ?case by (simp only: all) simp
qed

lemma run_emits_pending:
  assumes "sink_ready s p"
    and "\<forall>e \<in> set es. startTime s \<le> snd e \<and> snd e - startTime s < 2147483648000"
    and "\<forall>r \<in> set (rendered (map (\<lambda>e. (fst e, (snd e - startTime s) div 1000)) es)).
           length r < STRING_BUFFER_SIZE"
  shows "\<exists>s'. run (map (\<lambda>e. Emit (fst e) (snd e)) es) s = Inr s' \<and>
           pending s' p =
             pending s p @
             concat (rendered (map (\<lambda>e. (fst e, (snd e - startTime s) div 1000)) es))"
  using assms
proof (induction es arbitrary: s)
  case Nil
  then show ?case by simp
next
  case (Cons e es)
  obtain ev now where e: "e = (ev, now)" by (cases e)
  from Cons.prems(2) e have range: "startTime s \<le> now" "now - startTime s < 2147483648000"
    by simp_all
  then have ts: "timestamp now s = (now - startTime s) div 1000"
    by (rule timestamp_in_range)
  have "\<forall>r. record_of ev (timestamp now s) = Some r \<longrightarrow> length r < STRING_BUFFER_SIZE"
    using Cons.prems(3) e ts by simp
  from emit_pending [OF Cons.prems(1) this]
  obtain s1 where s1: "emit ev now s = Inr s1" "sink_ready s1 p" "startTime s1 = startTime s"
    "pending s1 p = pending s p @ concat (rendered [(ev, timestamp now s)])"
    by blast
  have "\<exists>s'. run (map (\<lambda>e. Emit (fst e) (snd e)) es) s1 = Inr s' \<and>
         pending s' p =
           pending s1 p @
           concat (rendered (map (\<lambda>e. (fst e, (snd e - startTime s1) div 1000)) es))"
    using Cons.prems(2,3) s1(2,3) e by (intro Cons.IH) (simp_all split: option.splits)
  with s1 e ts show ?case by (auto split: option.splits)
qed

text \<open>
  Claim C6, amended. Take an active session and a sequence of emit calls, each with its
  clock reading, the readings non-decreasing, not earlier than the clock origin and less
  than \<open>2\<^sup>3\<^sup>1\<close> microseconds (2147483648000 ticks) after it, each record shorter than
  the 1000 bytes of \<^verbatim>\<open>stringBuffer\<close>. Then every call returns, the record of each call
  is the one rendered with the timestamp \<open>(reading - startTime) div 1000\<close>, these records
  enter the buffer in the order of the calls (the buffer after the calls is the end of
  the old buffer followed by them, the rest having been flushed; on a sink that is open
  without error, the file followed by the buffer grows by exactly these records), and
  these timestamps are non-decreasing and not negative.
\<close>

theorem timestamps_monotone:
  assumes "traceActive s"
    and "sorted (map snd es)"
    and "\<forall>e \<in> set es. startTime s \<le> snd e \<and> snd e - startTime s < 2147483648000"
    and "\<forall>r \<in> set (rendered (map (\<lambda>e. (fst e, (snd e - startTime s) div 1000)) es)).
           length r < STRING_BUFFER_SIZE"
  shows "\<exists>s' flushed. run (map (\<lambda>e. Emit (fst e) (snd e)) es) s = Inr s' \<and>
           dataVector s @ rendered (map (\<lambda>e. (fst e, (snd e - startTime s) div 1000)) es) =
             flushed @ dataVector s' \<and>
           (\<forall>p. sink_ready s p \<longrightarrow>
              pending s' p =
                pending s p @
                concat (rendered (map (\<lambda>e. (fst e, (snd e - startTime s) div 1000)) es))) \<and>
           sorted (map (\<lambda>e. (snd e - startTime s) div 1000) es) \<and>
           (\<forall>e \<in> set es. 0 \<le> (snd e - startTime s) div 1000)"
proof -
  let ?R = "rendered (map (\<lambda>e. (fst e, (snd e - startTime s) div 1000)) es)"
  from run_emits_active [OF assms(1,3,4)] obtain s' flushed where
    s': "run (map (\<lambda>e. Emit (fst e) (snd e)) es) s = Inr s'"
    "dataVector s @ ?R = flushed @ dataVector s'"
    by blast
  have pend: "\<forall>p. sink_ready s p \<longrightarrow> pending s' p = pending s p @ concat ?R"
  proof (intro allI impI)
    fix p assume "sink_ready s p"
    from run_emits_pending [OF this assms(3,4)] s'(1)
    show "pending s' p = pending s p @ concat ?R" by simp
  qed
  have "sorted_wrt (\<lambda>x y. (x - startTime s) div 1000 \<le> (y - startTime s) div 1000) (map snd es)"
    using assms(2) by (rule sorted_wrt_mono_rel [rotated]) (simp add: zdiv_mono1)
  then have sorted: "sorted (map (\<lambda>e. (snd e - startTime s) div 1000) es)"
    by (simp add: sorted_map sorted_wrt_map)
  have "\<forall>e \<in> set es. 0 \<le> (snd e - startTime s) div 1000"
  proof
    fix e assume "e \<in> set es"
    with assms(3) have "startTime s \<le> snd e" by blast
    then show "0 \<le> (snd e - startTime s) div 1000" by simp
  qed
  with s' pend sorted show ?thesis by blast
qed

text \<open>
  Claim C6 fails as stated: the microsecond count is narrowed to a 32-bit \<^verbatim>\<open>int\<close>. On a
  session started at clock reading 0, two \<open>trace_event_end\<close> calls at readings
  \<open>2\<^sup>3\<^sup>1 - 1\<close> and \<open>2\<^sup>3\<^sup>1\<close> microseconds leave in the buffer a record with
  \<^verbatim>\<open>"ts": 2147483647\<close> followed by one with \<^verbatim>\<open>"ts": -2147483648\<close>. And an emit call
  whose record does not fit \<^verbatim>\<open>stringBuffer\<close> renders no timestamp at all.
\<close>

theorem timestamps_wrap_on_session:
  \<open>map_sum id dataVector
     (run [Emit (EventEnd 1) 2147483647000, Emit (EventEnd 1) 2147483648000]
        (fst (trace_start ''trace.json'' True 0 init_state))) =
     Inr [''{"ph": "E", "pid": 1, "tid": 1, "ts": 2147483647},\<newline>'',
          ''{"ph": "E", "pid": 1, "tid": 1, "ts": -2147483648},\<newline>''] \<and>
   run [Emit (InstantGlobal (replicate 1000 CHR ''a'') 1) 5000]
     (fst (trace_start ''trace.json'' True 0 init_state)) = Inl StringBufferOverflow\<close>
  by (simp add: eval_defs show_nat_numeral)

theorem timestamps_monotone_witness:
  \<open>\<exists>s'. run [Emit (EventEnd 1) 1500, Emit (EventEnd 1) 1500, Emit (InstantGlobal ''e'' 1) 7000]
           (fst (trace_start ''trace.json'' True 0 init_state)) = Inr s' \<and>
        pending s' ''trace.json'' =
          ''[\<newline>{"ph": "E", "pid": 1, "tid": 1, "ts": 1},\<newline>{"ph": "E", "pid": 1, "tid": 1, "ts": 1},\<newline>{"name": "e", "ph": "i", "pid": 1, "tid": 1, "s": "g", "ts": 7},\<newline>''\<close>
proof -
  let ?s1 = "fst (trace_start ''trace.json'' True 0 init_state)"
  let ?es = "[(EventEnd 1, 1500), (EventEnd 1, 1500), (InstantGlobal ''e'' 1, 7000)]
    :: (event \<times> int) list"
  have s1: "sink_ready ?s1 ''trace.json''" "startTime ?s1 = 0"
    \<open>pending ?s1 ''trace.json'' = ''[\<newline>''\<close> "traceActive ?s1"
    by (simp_all add: eval_defs sink_ready_def pending_def sink_text_def)
  have h: "sorted (map snd ?es)"
    "\<forall>e \<in> set ?es. startTime ?s1 \<le> snd e \<and> snd e - startTime ?s1 < 2147483648000"
    "\<forall>r \<in> set (rendered (map (\<lambda>e. (fst e, (snd e - startTime ?s1) div 1000)) ?es)).
           length r < STRING_BUFFER_SIZE"
    by (simp_all add: s1(2) eval_defs)
  from timestamps_monotone [OF s1(4) h] obtain s' where
    s': "run (map (\<lambda>e. Emit (fst e) (snd e)) ?es) ?s1 = Inr s'"
    "\<forall>p. sink_ready ?s1 p \<longrightarrow> pending s' p = pending ?s1 p @
       concat (rendered (map (\<lambda>e. (fst e, (snd e - startTime ?s1) div 1000)) ?es))"
    by blast
  from s'(2) s1(1) have "pending s' ''trace.json'' = pending ?s1 ''trace.json'' @
       concat (rendered (map (\<lambda>e. (fst e, (snd e - startTime ?s1) div 1000)) ?es))"
    by blast
  then have \<open>pending s' ''trace.json'' =
          ''[\<newline>{"ph": "E", "pid": 1, "tid": 1, "ts": 1},\<newline>{"ph": "E", "pid": 1, "tid": 1, "ts": 1},\<newline>{"name": "e", "ph": "i", "pid": 1, "tid": 1, "s": "g", "ts": 7},\<newline>''\<close>
    by (simp add: s1(2,3)) (simp add: eval_defs)
  with s'(1) show ?thesis by (intro exI [of _ s']) (simp del: run.simps)
qed

section \<open>The capacity test\<close>



lemma run_then_end:
  assumes "sink_ready s1 f" and "dataVector s1 = []"
    and "\<forall>c \<in> set cs. is_Emit c \<or> c = Flush"
    and "\<forall>r \<in> set (appended (startTime s1) cs). length r < STRING_BUFFER_SIZE"
  shows \<open>\<exists>s2. run cs s1 = Inr s2 \<and>
     (if dataVector s2 = [] then run (cs @ [End]) s1 = Inl BackOnEmptyVector
      else appended (startTime s1) cs \<noteq> [] \<and>
        (\<exists>s'. run (cs @ [End]) s1 = Inr s' \<and>
           disk s' f = Some (sink_text s1 f @
             butlast (butlast (concat (appended (startTime s1) cs))) @ ''\<newline>]'') \<and>
           traceFile s' = None \<and> \<not> traceActive s' \<and> dataVector s' = [] \<and>
           (\<forall>q. q \<noteq> f \<longrightarrow> disk s' q = disk s1 q)))\<close>
proof -
  let ?t0 = "startTime s1"
  have tm: "\<forall>r \<in> set (dataVector s1). terminated r" using assms(2) by simp
  from run_ready [OF assms(1,3) tm] assms(2,4)
  obtain s2 d where s2: "run cs s1 = Inr s2" "sink_ready s2 f"
    "\<forall>q. q \<noteq> f \<longrightarrow> disk s2 q = disk s1 q" "\<forall>r \<in> set (dataVector s2). terminated r"
    "appended ?t0 cs = d @ dataVector s2" "sink_text s2 f = sink_text s1 f @ concat d"
    by auto
  have whole: "run (cs @ [End]) s1 = trace_end s2"
    using s2(1) by (simp add: run_append split: sum.splits)
  show ?thesis
  proof (cases "dataVector s2 = []")
    case True
    with whole s2(1) show ?thesis by (simp add: trace_end_empty)
  next
    case False
    from trace_end_ready [OF s2(2) False s2(4)] obtain s' where
      s': "trace_end s2 = Inr s'"
        "disk s' f = Some (butlast (butlast (pending s2 f)) @ ''\<newline>]'')"
        "traceFile s' = None" "\<not> traceActive s'" "dataVector s' = []"
        "\<forall>q. q \<noteq> f \<longrightarrow> disk s' q = disk s2 q"
      by blast
    have l: "terminated (last (dataVector s2))" using False s2(4) by simp
    have "concat (dataVector s2) = concat (butlast (dataVector s2) @ [last (dataVector s2)])"
      using False by simp
    also have "\<dots> = concat (butlast (dataVector s2)) @ last (dataVector s2)"
      by (simp only: concat_append concat.simps append_Nil2)
    finally have "concat (appended ?t0 cs) =
        (concat d @ concat (butlast (dataVector s2))) @ last (dataVector s2)"
      using s2(5) by simp
    with l have tc: "terminated (concat (appended ?t0 cs))"
      by (simp only: terminated_append)
    have "pending s2 f = sink_text s1 f @ concat (appended ?t0 cs)"
      using s2(5,6) by (simp add: pending_def)
    with strip_terminated [OF tc, of "sink_text s1 f"]
    have "butlast (butlast (pending s2 f)) =
        sink_text s1 f @ butlast (butlast (concat (appended ?t0 cs)))"
      by simp
    moreover have "appended ?t0 cs \<noteq> []" using s2(5) False by simp
    ultimately show ?thesis
      using whole s2(1,3) s' False by simp
  qed
qed




lemma session_result:
  assumes "traceFile s0 = None" and "dataVector s0 = []"
    and "\<forall>c \<in> set cs. is_Emit c \<or> c = Flush"
    and "\<forall>r \<in> set (appended (if clockInit s0 then startTime s0 else now) cs).
           length r < STRING_BUFFER_SIZE"
  shows \<open>\<exists>s2. run cs (fst (trace_start f True now s0)) = Inr s2 \<and>
     (if dataVector s2 = [] then run (Start f True now # cs @ [End]) s0 = Inl BackOnEmptyVector
      else appended (if clockInit s0 then startTime s0 else now) cs \<noteq> [] \<and>
        (\<exists>s'. run (Start f True now # cs @ [End]) s0 = Inr s' \<and>
           disk s' f = Some (''[\<newline>'' @
             butlast (butlast (concat (appended (if clockInit s0 then startTime s0 else now) cs))) @
             ''\<newline>]'') \<and>
           traceFile s' = None \<and> \<not> traceActive s' \<and> dataVector s' = [] \<and>
           (\<forall>q. q \<noteq> f \<longrightarrow> disk s' q = disk s0 q)))\<close>
proof -
  let ?s1 = "fst (trace_start f True now s0)"
  let ?t0 = "if clockInit s0 then startTime s0 else now"
  note st = start_fresh [OF assms(1,2), of f now]
  from st have s1: "sink_ready ?s1 f" "dataVector ?s1 = []"
    and t0: "startTime ?s1 = ?t0" and tx: \<open>sink_text ?s1 f = ''[\<newline>''\<close>
    and others: "\<forall>q. q \<noteq> f \<longrightarrow> disk ?s1 q = disk s0 q"
    by simp_all
  have fits: "\<forall>r \<in> set (appended (startTime ?s1) cs). length r < STRING_BUFFER_SIZE"
    using assms(4) by (simp only: t0)
  have whole: "run (Start f True now # cs @ [End]) s0 = run (cs @ [End]) ?s1"
    by simp
  from run_then_end [OF s1 assms(3) fits] obtain s2 where s2: "run cs ?s1 = Inr s2"
    and alt: \<open>if dataVector s2 = [] then run (cs @ [End]) ?s1 = Inl BackOnEmptyVector
      else appended ?t0 cs \<noteq> [] \<and>
        (\<exists>s'. run (cs @ [End]) ?s1 = Inr s' \<and>
           disk s' f = Some (''[\<newline>'' @ butlast (butlast (concat (appended ?t0 cs))) @
             ''\<newline>]'') \<and>
           traceFile s' = None \<and> \<not> traceActive s' \<and> dataVector s' = [] \<and>
           (\<forall>q. q \<noteq> f \<longrightarrow> disk s' q = disk ?s1 q))\<close>
    unfolding t0 tx by blast
  show ?thesis
  proof (cases "dataVector s2 = []")
    case True
    with s2 alt show ?thesis unfolding whole by (intro exI [of _ s2]) simp
  next
    case False
    with alt obtain s' where s': "run (cs @ [End]) ?s1 = Inr s'"
      \<open>disk s' f = Some (''[\<newline>'' @ butlast (butlast (concat (appended ?t0 cs))) @
             ''\<newline>]'')\<close>
      "traceFile s' = None" "\<not> traceActive s'" "dataVector s' = []"
      "\<forall>q. q \<noteq> f \<longrightarrow> disk s' q = disk ?s1 q"
      and ne: "appended ?t0 cs \<noteq> []"
      by auto
    have "\<forall>q. q \<noteq> f \<longrightarrow> disk s' q = disk s0 q" using s'(6) others by simp
    with s2 False ne s'(1-5) show ?thesis
      unfolding whole by (intro exI [of _ s2]) (simp del: append_Cons)
  qed
qed









section \<open>A necessary condition for a JSON text\<close>

lemma scan_append: "scan m (a @ b) = (case scan m a of None \<Rightarrow> None | Some m' \<Rightarrow> scan m' b)"
  by (induction a arbitrary: m) (simp_all split: option.splits)

lemma scan_structural: "\<forall>c \<in> set s. structural c \<and> c \<noteq> CHR 0x22 \<Longrightarrow> scan Outside s = Some Outside"
  by (induction s) simp_all

lemma scan_ws: "json_ws w \<Longrightarrow> scan Outside w = Some Outside"
proof (rule scan_structural, rule ballI)
  fix c assume "json_ws w" and "c \<in> set w"
  then have c: "c \<in> {CHR '' '', CHR 0x09, CHR 0x0A, CHR 0x0D}" by (auto simp: json_ws_def)
  then have "json_ws [c]" by (simp add: json_ws_def)
  moreover from c have "c \<noteq> CHR 0x22" by auto
  ultimately show "structural c \<and> c \<noteq> CHR 0x22" by (simp add: structural_def)
qed

lemma scan_hex: "hex_digit h \<Longrightarrow> scan_step Inside h = Some Inside"
proof -
  assume "hex_digit h"
  then have "h \<noteq> CHR 0x22 \<and> h \<noteq> CHR 0x5C \<and> \<not> (of_char h :: nat) < 32"
    unfolding hex_digit_def by (elim set_ConsD [elim_format] disjE) simp_all
  then show ?thesis by simp
qed

lemma scan_escape:
  "e \<in> {CHR 0x22, CHR 0x5C, CHR ''/'', CHR ''b'', CHR ''f'', CHR ''n'', CHR ''r'', CHR ''t'', CHR ''u''}
     \<Longrightarrow> scan_step Escaped e = Some Inside"
  by auto

lemma scan_chars: "json_chars s \<Longrightarrow> scan Inside s = Some Inside"
proof (induction s rule: json_chars.induct)
  case 1
  then show ?case by simp
next
  case (2 c cs)
  show ?case
  proof (cases "c = CHR 0x5C")
    case False
    with "2.prems" have "c \<noteq> CHR 0x22" "32 \<le> (of_char c :: nat)" "json_chars cs" by simp_all
    with False "2.IH"(3) show ?thesis by simp
  next
    case bs: True
    with "2.prems" obtain e r where cs: "cs = e # r" by (cases cs) auto
    show ?thesis
    proof (cases "e = CHR ''u''")
      case False
      with "2.prems" bs cs have e: "e \<in> {CHR 0x22, CHR 0x5C, CHR ''/'', CHR ''b'', CHR ''f'',
          CHR ''n'', CHR ''r'', CHR ''t''}" and r: "json_chars r"
        by simp_all
      from e have "scan_step Escaped e = Some Inside" by (intro scan_escape) blast
      moreover from "2.IH"(2) [OF bs cs False] r have "scan Inside r = Some Inside" by simp
      moreover have "scan_step Inside c = Some Escaped" using bs by simp
      ultimately show ?thesis using cs by (simp del: scan_step.simps)
    next
      case u: True
      with "2.prems" bs cs obtain h1 h2 h3 h4 r' where r: "r = h1 # h2 # h3 # h4 # r'"
        and h: "hex_digit h1" "hex_digit h2" "hex_digit h3" "hex_digit h4" and r': "json_chars r'"
        by (auto split: list.splits)
      from "2.IH"(1) [OF bs cs u r] r' have "scan Inside r' = Some Inside" by simp
      moreover have "scan_step Escaped e = Some Inside" using u by simp
      moreover have "scan_step Inside c = Some Escaped" using bs by simp
      ultimately show ?thesis using cs r h by (simp add: scan_hex del: scan_step.simps)
    qed
  qed
qed


lemma structural_digit: "json_digit c \<Longrightarrow> structural c \<and> c \<noteq> CHR 0x22"
  unfolding structural_def json_digit_def by (elim set_ConsD [elim_format] disjE) simp_all

lemma scan_digits: "json_digits ds \<Longrightarrow> scan Outside ds = Some Outside"
  by (rule scan_structural) (auto simp: json_digits_def list_all_iff dest: structural_digit)

lemma scan_int: "json_int i \<Longrightarrow> scan Outside i = Some Outside"
  by (auto simp: json_int_def scan_digits structural_def)

lemma scan_frac: "json_frac f \<Longrightarrow> scan Outside f = Some Outside"
  by (auto simp: json_frac_def scan_digits structural_def)

lemma scan_exp: "json_exp x \<Longrightarrow> scan Outside x = Some Outside"
  by (auto simp: json_exp_def scan_digits structural_def scan_append)

lemma scan_number: "json_number n \<Longrightarrow> scan Outside n = Some Outside"
  by (auto simp: json_number_def scan_int scan_frac scan_exp structural_def scan_append)

lemma scan_string: "json_chars s \<Longrightarrow> scan Outside (CHR 0x22 # s @ [CHR 0x22]) = Some Outside"
  by (simp add: scan_append scan_chars)

lemma scan_value:
  "(json_value v \<longrightarrow> scan Outside v = Some Outside) \<and>
   (json_members ms \<longrightarrow> scan Outside ms = Some Outside) \<and>
   (json_elements es \<longrightarrow> scan Outside es = Some Outside)"
proof (induction rule: json_value_json_members_json_elements.induct)
  case (Number n)
  then show ?case by (rule scan_number)
next
  case (String s)
  then show ?case by (rule scan_string)
next
  case (Member w1 k w2 w3 v w4)
  then show ?case by (simp add: scan_append scan_ws scan_chars structural_def)
qed (simp_all add: scan_append scan_ws structural_def)


section \<open>Rendered numbers\<close>

lemma digit_char_digit: "d < 10 \<Longrightarrow> json_digit (digit_char d)"
proof -
  assume "d < 10"
  then have "d = 0 \<or> d = 1 \<or> d = 2 \<or> d = 3 \<or> d = 4 \<or> d = 5 \<or> d = 6 \<or> d = 7 \<or> d = 8 \<or> d = 9"
    by arith
  then show ?thesis
    by (elim disjE) (simp_all add: digit_char_simps json_digit_def)
qed

lemma digit_char_nonzero: "0 < d \<Longrightarrow> d < 10 \<Longrightarrow> digit_char d \<noteq> CHR ''0''"
proof -
  assume "0 < d" "d < 10"
  then have "d = 1 \<or> d = 2 \<or> d = 3 \<or> d = 4 \<or> d = 5 \<or> d = 6 \<or> d = 7 \<or> d = 8 \<or> d = 9"
    by arith
  then show ?thesis
    by (elim disjE) (simp_all add: digit_char_simps)
qed

lemma show_nat_digits: "json_digits (show_nat n)"
proof (induction n rule: show_nat.induct)
  case (1 n)
  show ?case
  proof (cases "n < 10")
    case True
    then show ?thesis by (simp add: show_nat_digit json_digits_def digit_char_digit)
  next
    case False
    with 1 have "json_digits (show_nat (n div 10))" by simp
    moreover have "json_digit (digit_char (n mod 10))" by (simp add: digit_char_digit)
    ultimately show ?thesis
      using False by (subst show_nat.simps) (simp add: json_digits_def)
  qed
qed

lemma show_nat_hd: "0 < n \<Longrightarrow> hd (show_nat n) \<noteq> CHR ''0''"
proof (induction n rule: show_nat.induct)
  case (1 n)
  show ?case
  proof (cases "n < 10")
    case True
    with "1.prems" show ?thesis by (simp add: show_nat_digit digit_char_nonzero)
  next
    case False
    then have "0 < n div 10" by simp
    with 1 False have "hd (show_nat (n div 10)) \<noteq> CHR ''0''" by simp
    moreover have "show_nat (n div 10) \<noteq> []"
      using show_nat_digits [of "n div 10"] by (simp add: json_digits_def)
    ultimately show ?thesis
      using False by (subst show_nat.simps) simp
  qed
qed

lemma show_nat_int: "json_int (show_nat n)"
proof (cases "n = 0")
  case True
  then show ?thesis by (simp add: json_int_def show_nat_digit digit_char_simps)
next
  case False
  then show ?thesis by (simp add: json_int_def show_nat_digits show_nat_hd)
qed

lemma show_nat_number: "json_number (show_nat n)"
  unfolding json_number_def
  by (rule exI [of _ "[]"], rule exI [of _ "show_nat n"], rule exI [of _ "[]"],
      rule exI [of _ "[]"]) (simp add: show_nat_int json_frac_def json_exp_def)

lemma show_int_number: "json_number (show_int i)"
proof (cases "i < 0")
  case True
  show ?thesis
    unfolding json_number_def
    by (rule exI [of _ "''-''"], rule exI [of _ "show_nat (nat (- i))"], rule exI [of _ "[]"],
        rule exI [of _ "[]"])
       (simp add: True show_int_def show_nat_int json_frac_def json_exp_def)
next
  case False
  then show ?thesis by (simp add: show_int_def show_nat_number)
qed

section \<open>Rendered records\<close>

lemma json_ws_simps: "json_ws []" "json_ws '' ''" \<open>json_ws ''\<newline>''\<close>
  by (simp_all add: json_ws_def)

lemma members_json:
  "kvs \<noteq> [] \<Longrightarrow> list_all (\<lambda>(k, v). json_chars k \<and> json_value v) kvs \<Longrightarrow>
     json_ws w1 \<Longrightarrow> json_ws w2 \<Longrightarrow> json_members (w1 @ members kvs @ w2)"
proof (induction kvs arbitrary: w1 rule: members.induct)
  case 1
  then show ?case by simp
next
  case (2 k v)
  then have "json_members (w1 @ CHR 0x22 # k @ [CHR 0x22] @ [] @ '':'' @ '' '' @ v @ w2)"
    by (intro Member) (simp_all add: json_ws_simps)
  then show ?case by (simp add: member_def)
next
  case (3 k v kv kvs)
  have first: "json_members (w1 @ CHR 0x22 # k @ [CHR 0x22] @ [] @ '':'' @ '' '' @ v @ [])"
    using "3.prems" by (intro Member) (simp_all add: json_ws_simps)
  have rest: "json_members ('' '' @ members (kv # kvs) @ w2)"
    using "3.prems" by (intro "3.IH") (simp_all add: json_ws_simps)
  from Members [OF first rest] show ?case by (simp add: member_def)
qed

lemma members_object:
  "kvs \<noteq> [] \<Longrightarrow> list_all (\<lambda>(k, v). json_chars k \<and> json_value v) kvs \<Longrightarrow> json_ws w \<Longrightarrow>
     json_object (''{'' @ members kvs @ w @ ''}'')"
  unfolding json_object_def
  using members_json [of kvs "[]" w]
  by (intro exI [of _ "members kvs @ w"]) (simp add: json_ws_simps)

lemma quoted_value: "json_chars s \<Longrightarrow> json_value (quoted s)"
  using String [of s] by (simp add: quoted_def)

lemma int_value: "json_value (show_int i)"
  by (rule Number) (rule show_int_number)

lemma nat_value: "json_value (show_nat n)"
  by (rule Number) (rule show_nat_number)

lemma fmt_args_members:
  "length ks = length vs \<Longrightarrow> fmt_args ks vs = members (zip ks vs)"
proof (induction ks vs rule: list_induct2)
  case Nil
  then show ?case by simp
next
  case (Cons k ks v vs)
  then show ?case by (cases ks; cases vs) (simp_all add: member_def)
qed

lemma args_value:
  assumes "length ks = length vs" and "list_all json_chars ks" and "list_all json_value vs"
  shows "json_value (''{ '' @ fmt_args ks vs @ ''}'')"
proof (cases "ks = []")
  case True
  with assms(1) have "vs = []" by simp
  with True EmptyObject [of "'' ''"] show ?thesis by (simp add: json_ws_simps)
next
  case False
  with assms(1) have ne: "zip ks vs \<noteq> []" by (cases ks; cases vs) simp_all
  have "list_all (\<lambda>(k, v). json_chars k \<and> json_value v) (zip ks vs)"
    using assms by (auto simp: list_all_iff dest: set_zip_leftD set_zip_rightD)
  from members_json [OF ne this, of "'' ''" "[]"]
  have "json_members ('' '' @ members (zip ks vs))" by (simp add: json_ws_simps)
  from Object [OF this] show ?thesis by (simp add: fmt_args_members [OF assms(1)])
qed


lemma object_intro:
  assumes \<open>r = ''{'' @ members kvs @ w @ ''}'' @ '',\<newline>''\<close> and "kvs \<noteq> []"
    and "list_all (\<lambda>(k, v). json_chars k \<and> json_value v) kvs" and "json_ws w"
  shows \<open>\<exists>obj. json_object obj \<and> r = obj @ '',\<newline>''\<close>
  using members_object [OF assms(2,3,4)] assms(1)
  by (intro exI [of _ "''{'' @ members kvs @ w @ ''}''"]) simp

lemma key_chars:
  "json_chars ''name''" "json_chars ''cat''" "json_chars ''ph''" "json_chars ''pid''"
  "json_chars ''tid''" "json_chars ''ts''" "json_chars ''args''" "json_chars ''id''"
  "json_chars ''s''" "json_chars ''B''" "json_chars ''E''" "json_chars ''N''"
  "json_chars ''D''" "json_chars ''i''" "json_chars ''C''" "json_chars ''g''"
  by simp_all

lemma event_start_object:
  assumes "json_chars name" and "json_chars categories"
  shows \<open>\<exists>obj. json_object obj \<and> fmt_event_start name categories pid tid ts = obj @ '',\<newline>''\<close>
proof (rule object_intro)
  show \<open>fmt_event_start name categories pid tid ts =
      ''{'' @ members [(''name'', quoted name), (''cat'', quoted categories),
        (''ph'', quoted ''B''), (''pid'', show_int pid), (''tid'', show_int (sint tid)),
        (''ts'', show_int ts)] @ [] @ ''}'' @ '',\<newline>''\<close>
    by (simp add: fmt_event_start_def member_def quoted_def)
qed (simp_all add: assms key_chars quoted_value int_value json_ws_simps)

lemma event_start_args_object:
  assumes "json_chars name" and "json_chars categories" and "length ns = length vs"
    and "list_all json_chars ns" and "list_all json_value vs"
  shows \<open>\<exists>obj. json_object obj \<and>
     fmt_event_start_args name categories pid tid ts @ fmt_args ns vs @ fmt_args_close
       = obj @ '',\<newline>''\<close>
proof (rule object_intro)
  show \<open>fmt_event_start_args name categories pid tid ts @ fmt_args ns vs @ fmt_args_close =
      ''{'' @ members [(''name'', quoted name), (''cat'', quoted categories),
        (''ph'', quoted ''B''), (''pid'', show_int pid), (''tid'', show_int (sint tid)),
        (''ts'', show_int ts), (''args'', ''{ '' @ fmt_args ns vs @ ''}'')] @ '' '' @ ''}'' @
      '',\<newline>''\<close>
    by (simp add: fmt_event_start_args_def fmt_args_close_def member_def quoted_def)
qed (simp_all add: assms key_chars quoted_value int_value json_ws_simps args_value [simplified])

lemma event_end_object:
  \<open>\<exists>obj. json_object obj \<and> fmt_event_end pid tid ts = obj @ '',\<newline>''\<close>
proof (rule object_intro)
  show \<open>fmt_event_end pid tid ts =
      ''{'' @ members [(''ph'', quoted ''E''), (''pid'', show_int pid),
        (''tid'', show_int (sint tid)), (''ts'', show_int ts)] @ [] @ ''}'' @ '',\<newline>''\<close>
    by (simp add: fmt_event_end_def member_def quoted_def)
qed (simp_all add: key_chars quoted_value int_value json_ws_simps)

lemma event_end_args_object:
  assumes "length ns = length vs" and "list_all json_chars ns" and "list_all json_value vs"
  shows \<open>\<exists>obj. json_object obj \<and>
     fmt_event_end_args pid tid ts @ fmt_args ns vs @ fmt_args_close = obj @ '',\<newline>''\<close>
proof (rule object_intro)
  show \<open>fmt_event_end_args pid tid ts @ fmt_args ns vs @ fmt_args_close =
      ''{'' @ members [(''ph'', quoted ''E''), (''pid'', show_int pid),
        (''tid'', show_int (sint tid)), (''ts'', show_int ts),
        (''args'', ''{ '' @ fmt_args ns vs @ ''}'')] @ '' '' @ ''}'' @ '',\<newline>''\<close>
    by (simp add: fmt_event_end_args_def fmt_args_close_def member_def quoted_def)
qed (simp_all add: assms key_chars quoted_value int_value json_ws_simps args_value [simplified])

lemma object_object:
  assumes "json_chars name" and "json_chars ph"
  shows \<open>\<exists>obj. json_object obj \<and> fmt_object ph name pid tid obj_pointer ts = obj @ '',\<newline>''\<close>
proof (rule object_intro)
  show \<open>fmt_object ph name pid tid obj_pointer ts =
      ''{'' @ members [(''name'', quoted name), (''ph'', quoted ph), (''pid'', show_int pid),
        (''tid'', show_int (sint tid)), (''id'', show_nat (unat obj_pointer)),
        (''ts'', show_int ts)] @ [] @ ''}'' @ '',\<newline>''\<close>
    by (simp add: fmt_object_def member_def quoted_def)
qed (simp_all add: assms key_chars quoted_value int_value nat_value json_ws_simps)

lemma instant_global_object:
  assumes "json_chars name"
  shows \<open>\<exists>obj. json_object obj \<and> fmt_instant_global name pid tid ts = obj @ '',\<newline>''\<close>
proof (rule object_intro)
  show \<open>fmt_instant_global name pid tid ts =
      ''{'' @ members [(''name'', quoted name), (''ph'', quoted ''i''), (''pid'', show_int pid),
        (''tid'', show_int (sint tid)), (''s'', quoted ''g''), (''ts'', show_int ts)] @ [] @
      ''}'' @ '',\<newline>''\<close>
    by (simp add: fmt_instant_global_def member_def quoted_def)
qed (simp_all add: assms key_chars quoted_value int_value json_ws_simps)

lemma counter_object:
  assumes "json_chars name" and "length ns = length vs"
    and "list_all json_chars ns" and "list_all json_value vs"
  shows \<open>\<exists>obj. json_object obj \<and>
     fmt_counter name pid tid ts @ fmt_args ns vs @ fmt_args_close = obj @ '',\<newline>''\<close>
proof (rule object_intro)
  show \<open>fmt_counter name pid tid ts @ fmt_args ns vs @ fmt_args_close =
      ''{'' @ members [(''name'', quoted name), (''ph'', quoted ''C''), (''pid'', show_int pid),
        (''tid'', show_int (sint tid)), (''ts'', show_int ts),
        (''args'', ''{ '' @ fmt_args ns vs @ ''}'')] @ '' '' @ ''}'' @ '',\<newline>''\<close>
    by (simp add: fmt_counter_def fmt_args_close_def member_def quoted_def)
qed (simp_all add: assms key_chars quoted_value int_value json_ws_simps args_value [simplified])

lemma record_object:
  assumes "json_safe ev" and "record_of ev ts = Some r"
  shows \<open>\<exists>obj. json_object obj \<and> r = obj @ '',\<newline>''\<close>
proof (cases ev)
  case (EventStart name categories tid)
  with assms event_start_object [of name categories] show ?thesis by auto
next
  case (EventStartArgs name categories ns vs tid)
  with assms event_start_object [of name categories]
    event_start_args_object [of name categories ns vs]
  show ?thesis by (auto split: if_splits)
next
  case (EventEnd tid)
  with assms event_end_object show ?thesis by auto
next
  case (EventEndArgs ns vs tid)
  with assms event_end_object event_end_args_object [of ns vs]
  show ?thesis by (auto split: if_splits)
next
  case (ObjectNew name obj_pointer tid)
  with assms object_object [of name "''N''"] show ?thesis by (auto simp: key_chars)
next
  case (ObjectGone name obj_pointer tid)
  with assms object_object [of name "''D''"] show ?thesis by (auto simp: key_chars)
next
  case (InstantGlobal name tid)
  with assms instant_global_object [of name] show ?thesis by auto
next
  case (Counter name key val tid)
  with assms counter_object [of name key val] show ?thesis by (auto split: if_splits)
qed

section \<open>The array\<close>

lemma concat_terminated:
  assumes "rs \<noteq> []" and "\<forall>r \<in> set rs. terminated r"
  shows "terminated (concat rs)"
proof -
  have "concat rs = concat (butlast rs @ [last rs])" using assms(1) by simp
  also have "\<dots> = concat (butlast rs) @ last rs"
    by (simp only: concat_append concat.simps append_Nil2)
  finally show ?thesis using assms by (simp add: terminated_append)
qed

lemma framed_objects:
  assumes "rs \<noteq> []" and \<open>\<forall>r \<in> set rs. \<exists>obj. json_object obj \<and> r = obj @ '',\<newline>''\<close>
  shows \<open>json_objects (''\<newline>'' @ butlast (butlast (concat rs)) @ ''\<newline>'')\<close>
  using assms
proof (induction rs rule: list_nonempty_induct)
  case (single r)
  then obtain obj where obj: "json_object obj" \<open>r = obj @ '',\<newline>''\<close> by auto
  from One [OF _ obj(1), of \<open>''\<newline>''\<close> \<open>''\<newline>''\<close>] obj(2) show ?case
    by (simp add: json_ws_simps butlast_append)
next
  case (cons r rs)
  then obtain obj where obj: "json_object obj" \<open>r = obj @ '',\<newline>''\<close> by auto
  have "\<forall>r \<in> set rs. terminated r" using cons.prems by (auto simp: terminated_def)
  from concat_terminated [OF cons.hyps this]
  have "butlast (butlast (r @ concat rs)) = r @ butlast (butlast (concat rs))"
    by (rule strip_terminated)
  moreover have first: \<open>json_objects (''\<newline>'' @ obj @ [])\<close>
    by (intro One obj) (simp_all add: json_ws_simps)
  moreover have rest: \<open>json_objects (''\<newline>'' @ butlast (butlast (concat rs)) @ ''\<newline>'')\<close>
    using cons.prems by (intro cons.IH) simp
  ultimately show ?case using More [OF first rest] obj(2) by simp
qed

lemma array_of_objects:
  assumes "rs \<noteq> []" and \<open>\<forall>r \<in> set rs. \<exists>obj. json_object obj \<and> r = obj @ '',\<newline>''\<close>
  shows \<open>json_array_of_objects (''[\<newline>'' @ butlast (butlast (concat rs)) @ ''\<newline>]'')\<close>
  unfolding json_array_of_objects_def
  using framed_objects [OF assms]
  by (intro exI [of _ "[]"] exI [of _ \<open>''\<newline>'' @ butlast (butlast (concat rs)) @ ''\<newline>''\<close>])
     (simp add: json_ws_simps)

lemma appended_objects:
  \<open>\<forall>c \<in> set cs. call_safe c \<Longrightarrow>
     \<forall>r \<in> set (appended t0 cs). \<exists>obj. json_object obj \<and> r = obj @ '',\<newline>''\<close>
proof (induction t0 cs rule: appended.induct)
  case (2 t0 ev now cs)
  then show ?case by (auto split: option.splits dest: record_object [OF _ sym])
qed simp_all

lemma object_list_objects: "json_object_list n b \<Longrightarrow> json_objects b \<and> 0 < n"
  by (induction rule: json_object_list.induct) (auto intro: One More [simplified])

lemma array_of_array: "json_array_of n t \<Longrightarrow> json_array_of_objects t \<and> 0 < n"
  unfolding json_array_of_def json_array_of_objects_def
  using object_list_objects by blast

lemma framed_object_list:
  assumes "rs \<noteq> []" and \<open>\<forall>r \<in> set rs. \<exists>obj. json_object obj \<and> r = obj @ '',\<newline>''\<close>
  shows \<open>json_object_list (length rs) (''\<newline>'' @ butlast (butlast (concat rs)) @ ''\<newline>'')\<close>
  using assms
proof (induction rs rule: list_nonempty_induct)
  case (single r)
  then obtain obj where obj: "json_object obj" \<open>r = obj @ '',\<newline>''\<close> by auto
  from Single [OF _ obj(1), of \<open>''\<newline>''\<close> \<open>''\<newline>''\<close>] obj(2) show ?case
    by (simp add: json_ws_simps butlast_append)
next
  case (cons r rs)
  then obtain obj where obj: "json_object obj" \<open>r = obj @ '',\<newline>''\<close> by auto
  have "\<forall>r \<in> set rs. terminated r" using cons.prems by (auto simp: terminated_def)
  from concat_terminated [OF cons.hyps this]
  have "butlast (butlast (r @ concat rs)) = r @ butlast (butlast (concat rs))"
    by (rule strip_terminated)
  moreover have first: \<open>json_object_list 1 (''\<newline>'' @ obj @ [])\<close>
    by (intro Single obj) (simp_all add: json_ws_simps)
  moreover have rest:
    \<open>json_object_list (length rs) (''\<newline>'' @ butlast (butlast (concat rs)) @ ''\<newline>'')\<close>
    using cons.prems by (intro cons.IH) simp
  ultimately show ?case using Append [OF first rest] obj(2) by simp
qed

lemma array_of_records:
  assumes "rs \<noteq> []" and \<open>\<forall>r \<in> set rs. \<exists>obj. json_object obj \<and> r = obj @ '',\<newline>''\<close>
  shows \<open>json_array_of (length rs) (''[\<newline>'' @ butlast (butlast (concat rs)) @ ''\<newline>]'')\<close>
  unfolding json_array_of_def
  using framed_object_list [OF assms]
  by (intro exI [of _ "[]"] exI [of _ \<open>''\<newline>'' @ butlast (butlast (concat rs)) @ ''\<newline>''\<close>])
     (simp add: json_ws_simps)

text \<open>
  Claim C1, amended. Take a successful \<open>trace_start\<close> on a closed sink with an empty
  buffer, then any sequence of emit calls and explicit flushes in which the strings
  passed by the caller are JSON-safe and every rendered record is shorter than the 1000
  bytes of \<^verbatim>\<open>stringBuffer\<close>. The calls all return normally, and if the buffer is not empty
  when \<open>trace_end\<close> is called, \<open>trace_end\<close> returns normally and the file holds an
  opening bracket, the records that the emit calls rendered, in the order of the calls,
  with the separator between them and none after the last, and a closing bracket. That
  text is a JSON array of as many objects as records were rendered, at least one, with
  no comma before the first and none after the last.
\<close>

theorem session_writes_json_array:
  assumes "traceFile s0 = None" and "dataVector s0 = []"
    and "\<forall>c \<in> set cs. is_Emit c \<or> c = Flush"
    and "\<forall>c \<in> set cs. call_safe c"
    and "\<forall>r \<in> set (appended (if clockInit s0 then startTime s0 else now) cs).
           length r < STRING_BUFFER_SIZE"
  shows \<open>\<exists>s2. run cs (fst (trace_start f True now s0)) = Inr s2 \<and>
           (dataVector s2 \<noteq> [] \<longrightarrow>
              0 < length (appended (if clockInit s0 then startTime s0 else now) cs) \<and>
              file_of f (run (Start f True now # cs @ [End]) s0) =
                Inr (Some (''[\<newline>'' @
                  butlast (butlast
                    (concat (appended (if clockInit s0 then startTime s0 else now) cs))) @
                  ''\<newline>]'')) \<and>
              json_array_of
                (length (appended (if clockInit s0 then startTime s0 else now) cs))
                (''[\<newline>'' @
                  butlast (butlast
                    (concat (appended (if clockInit s0 then startTime s0 else now) cs))) @
                  ''\<newline>]'') \<and>
              produces_json (file_of f (run (Start f True now # cs @ [End]) s0)))\<close>
proof -
  let ?t0 = "if clockInit s0 then startTime s0 else now"
  let ?out = \<open>''[\<newline>'' @ butlast (butlast (concat (appended ?t0 cs))) @ ''\<newline>]''\<close>
  from session_result [OF assms(1,2,3,5), of f] obtain s2 where
    s2: "run cs (fst (trace_start f True now s0)) = Inr s2"
    and alt: \<open>dataVector s2 \<noteq> [] \<Longrightarrow> appended ?t0 cs \<noteq> [] \<and>
        (\<exists>s'. run (Start f True now # cs @ [End]) s0 = Inr s' \<and> disk s' f = Some ?out)\<close>
    by (auto split: if_splits)
  have "0 < length (appended ?t0 cs) \<and>
      file_of f (run (Start f True now # cs @ [End]) s0) = Inr (Some ?out) \<and>
      json_array_of (length (appended ?t0 cs)) ?out \<and>
      produces_json (file_of f (run (Start f True now # cs @ [End]) s0))"
    if "dataVector s2 \<noteq> []"
  proof -
    from alt [OF that] obtain s' where ne: "appended ?t0 cs \<noteq> []"
      and s': "run (Start f True now # cs @ [End]) s0 = Inr s'" "disk s' f = Some ?out"
      by blast
    have fl: "file_of f (run (Start f True now # cs @ [End]) s0) = Inr (Some ?out)"
      using s' by (simp add: file_of_def del: run.simps)
    note arr = array_of_records [OF ne appended_objects [OF assms(4)]]
    from array_of_array [OF arr] have "json_array_of_objects ?out" by simp
    with fl have "produces_json (file_of f (run (Start f True now # cs @ [End]) s0))"
      by (simp add: produces_json_def del: run.simps)
    with ne fl arr show ?thesis by simp
  qed
  with s2 show ?thesis by blast
qed

lemma scan_object: "json_object v \<Longrightarrow> scan Outside v = Some Outside"
  using scan_value by (auto simp: json_object_def scan_append scan_ws structural_def)

lemma scan_objects: "json_objects b \<Longrightarrow> scan Outside b = Some Outside"
  by (induction rule: json_objects.induct)
     (simp_all add: scan_append scan_ws scan_object structural_def)

lemma scan_array: "json_array_of_objects t \<Longrightarrow> scan Outside t = Some Outside"
  by (auto simp: json_array_of_objects_def scan_append scan_ws scan_objects structural_def)

lemma objects_elements: "json_objects b \<Longrightarrow> json_elements b"
proof (induction rule: json_objects.induct)
  case (One w1 v w2)
  from One(2) have "json_value v"
    by (auto simp: json_object_def intro: EmptyObject [simplified] Object [simplified])
  with One show ?case by (intro Element)
next
  case (More a b)
  then show ?case by (intro Elements)
qed

lemma array_of_objects_text: "json_array_of_objects t \<Longrightarrow> json_text t"
proof -
  assume "json_array_of_objects t"
  then obtain w1 body w2 where t: "t = w1 @ ''['' @ body @ '']'' @ w2" "json_ws w1" "json_ws w2"
    and body: "json_ws body \<or> json_objects body"
    by (auto simp: json_array_of_objects_def)
  from body have "json_value (''['' @ body @ '']'')"
    using EmptyArray [of body] Array [of body] objects_elements [of body] by blast
  with t show ?thesis
    unfolding json_text_def by (intro exI [of _ w1] exI [of _ "''['' @ body @ '']''"] exI [of _ w2]) simp
qed

text \<open>
  Claim C1 fails as stated. A session with no event ends in \<^verbatim>\<open>back()\<close> on an empty
  vector and leaves no closed array. A session with one event whose name contains a
  double quote leaves a file that no JSON parser accepts, since names are copied into
  the record unescaped.
\<close>

theorem session_not_json:
  \<open>\<not> produces_json (file_of ''trace.json'' (session ''trace.json'' 0 [])) \<and>
   \<not> produces_json (file_of ''trace.json''
        (session ''trace.json'' 0 [Emit (InstantGlobal ''a"b'' 1) 5000]))\<close>
proof -
  have "file_of ''trace.json'' (session ''trace.json'' 0 []) = Inl BackOnEmptyVector"
    by (simp add: session_def file_of_def eval_defs)
  then have first: "\<not> produces_json (file_of ''trace.json'' (session ''trace.json'' 0 []))"
    by (simp add: produces_json_def)
  let ?out = \<open>''[\<newline>{"name": "a"b", "ph": "i", "pid": 1, "tid": 1, "s": "g", "ts": 5}\<newline>]''\<close>
  have out: \<open>file_of ''trace.json'' (session ''trace.json'' 0 [Emit (InstantGlobal ''a"b'' 1) 5000])
      = Inr (Some ?out)\<close>
    by (simp add: session_def file_of_def eval_defs)
  have "scan Outside ?out = None"
    by (simp add: structural_def json_ws_def)
  then have "\<not> json_array_of_objects ?out"
    using scan_array [of ?out] by auto
  with out first show ?thesis by (simp add: produces_json_def)
qed

theorem session_writes_json_array_witness:
  \<open>file_of ''trace.json''
     (session ''trace.json'' 0
        [Emit (InstantGlobal ''e0'' 1) 5000, Flush,
         Emit (EventStartArgs ''n'' ''c'' [''a''] [''1''] 1) 7000]) =
     Inr (Some ''[\<newline>{"name": "e0", "ph": "i", "pid": 1, "tid": 1, "s": "g", "ts": 5},\<newline>{"name": "n", "cat": "c", "ph": "B", "pid": 1, "tid": 1, "ts": 7, "args": { "a": 1} }\<newline>]'') \<and>
   json_array_of 2
     ''[\<newline>{"name": "e0", "ph": "i", "pid": 1, "tid": 1, "s": "g", "ts": 5},\<newline>{"name": "n", "cat": "c", "ph": "B", "pid": 1, "tid": 1, "ts": 7, "args": { "a": 1} }\<newline>]''\<close>
proof -
  let ?cs = "[Emit (InstantGlobal ''e0'' 1) 5000, Flush,
         Emit (EventStartArgs ''n'' ''c'' [''a''] [''1''] 1) 7000]"
  have one: "json_value ''1''"
    using nat_value [of 1] by (simp add: show_nat_digit digit_char_simps)
  have h: "traceFile init_state = None" "dataVector init_state = []"
    "\<not> clockInit init_state"
    by (simp_all add: init_state_def)
  have calls: "\<forall>c \<in> set ?cs. is_Emit c \<or> c = Flush" by simp
  have safe: "\<forall>c \<in> set ?cs. call_safe c" using one by simp
  have fits: "\<forall>r \<in> set (appended (if clockInit init_state then startTime init_state else 0) ?cs).
      length r < STRING_BUFFER_SIZE"
    by (simp add: h eval_defs fmt_event_start_args_def fmt_args_close_def)
  have buffered: "\<exists>s2. run ?cs (fst (trace_start ''trace.json'' True 0 init_state)) = Inr s2 \<and>
      dataVector s2 \<noteq> []"
    by (simp add: eval_defs trace_event_start_args_def fmt_event_start_args_def
        fmt_args_close_def)
  from session_writes_json_array [OF h(1,2) calls safe fits, of "''trace.json''"] buffered
  have \<open>file_of ''trace.json'' (run (Start ''trace.json'' True 0 # ?cs @ [End]) init_state) =
      Inr (Some (''[\<newline>'' @ butlast (butlast (concat (appended 0 ?cs))) @ ''\<newline>]'')) \<and>
    json_array_of (length (appended 0 ?cs))
      (''[\<newline>'' @ butlast (butlast (concat (appended 0 ?cs))) @ ''\<newline>]'')\<close>
    by (auto simp: h(3) simp del: run.simps appended.simps)
  then show ?thesis
    by (simp add: session_def file_of_def eval_defs trace_event_start_args_def
        fmt_event_start_args_def fmt_args_close_def numeral_2_eq_2)
qed

end
